theory Spec2Isabelle
  imports Complex_Main "HOL-Library.Word" "HOL-Library.Multiset" "HOL-Library.Signed_Division"
begin

unbundle bit_operations_syntax

section \<open>Row transforms of \<^verbatim>\<open>_convolve.cpp\<close>: Haar\<close>

text \<open>
  A 2-D array is a list of \<open>N0\<close> rows, each a list of \<open>N1\<close> elements; the element
  stride \<open>step\<close> of the source only says where the logical element \<open>x\<close> of a row
  lives, so \<open>data[x*step]\<close> is \<open>data ! x\<close>.  The scratch vector \<open>bufdata\<close> is
  allocated once per call (\<open>resize(N1)\<close> value-initialises it to \<open>T()\<close>, i.e. zero)
  and is threaded through the rows exactly as the source reuses it.

  Floating-point element types are modelled by an exact field (rounding is not
  modelled); in the forward \<^verbatim>\<open>haar\<close>, which only adds and subtracts, an integer
  element type is any additive group, e.g. a machine word.

  The forward transforms split the contiguous buffer (\<open>high = buffer + N1/2\<close>), so
  their models hold for every \<open>N1\<close> and every \<open>step\<close>.  The inverse transforms split
  the row itself (\<open>high = data + step*N1/2\<close>): that is the logical element
  \<open>N1 div 2\<close> when \<open>N1\<close> is even or \<open>step\<close> is 1.  For odd \<open>N1\<close> and a larger
  \<open>step\<close> the source reads between the elements of the row, which a logical row
  cannot express; the models of \<^verbatim>\<open>ihaar\<close> and \<^verbatim>\<open>iwavelet\<close> are of the first two
  cases only, and the round-trip theorems below, the only ones that speak of the
  inverse transforms, have even \<open>N1\<close>.
\<close>

text \<open>The copy-back loop \<^verbatim>\<open>for (x = 0; x != N1; ++x) data[step*x] = buffer[x];\<close>\<close>

definition copy_back :: "nat \<Rightarrow> 'a list \<Rightarrow> 'a list \<Rightarrow> 'a list" where
  "copy_back N1 buffer data = fold (\<lambda>x d. d[x := buffer ! x]) [0..<N1] data"

text \<open>One row of \<^verbatim>\<open>haar\<close>: \<open>low = buffer\<close>, \<open>high = buffer + N1/2\<close>.\<close>

definition haar_step :: "nat \<Rightarrow> 'a::ab_group_add list \<Rightarrow> nat \<Rightarrow> 'a list \<Rightarrow> 'a list" where
  "haar_step N1 data x buffer =
     (let di = data ! (2 * x);
          di1 = data ! (2 * x + 1)
      in (buffer[x := di + di1])[N1 div 2 + x := di1 - di])"

definition haar_row :: "nat \<Rightarrow> 'a::ab_group_add list \<times> 'a list \<Rightarrow> 'a list \<times> 'a list" where
  "haar_row N1 s =
     (let buffer = fold (haar_step N1 (snd s)) [0..<N1 div 2] (fst s)
      in (buffer, copy_back N1 buffer (snd s)))"

text \<open>The loop over the rows, sharing one buffer.\<close>

definition rows_loop ::
  "('b \<times> 'a list \<Rightarrow> 'b \<times> 'a list) \<Rightarrow> nat \<Rightarrow> 'b \<Rightarrow> 'a list list \<Rightarrow> 'a list list" where
  "rows_loop f N0 buf0 rows =
     snd (fold (\<lambda>y (buf, rs). let (buf', d) = f (buf, rs ! y) in (buf', rs[y := d]))
            [0..<N0] (buf0, rows))"

definition haar :: "nat \<Rightarrow> nat \<Rightarrow> 'a::ab_group_add list list \<Rightarrow> 'a list list" where
  "haar N0 N1 rows = rows_loop (haar_row N1) N0 (replicate N1 0) rows"

text \<open>
  One row of \<^verbatim>\<open>ihaar\<close>: \<open>low = data\<close>, \<open>high = data + step*N1/2\<close>, read as the
  logical element \<open>N1 div 2\<close> (even \<open>N1\<close>, or \<open>step = 1\<close>; see above).  The division
  \<^verbatim>\<open>/2\<close> is the parameter \<open>half\<close>, applied to the sum or difference as a value of
  \<open>T\<close>.  That is the source's division for a floating \<open>T\<close> (\<open>half v = v / 2\<close>) and
  for an integer \<open>T\<close> that C++ does not promote.  For an integer \<open>T\<close> narrower than
  \<^verbatim>\<open>int\<close> the source divides the promoted \<^verbatim>\<open>int\<close>, which no \<open>half\<close> of the wrapped
  value gives: such element types are outside this model.
\<close>

definition ihaar_step :: "('a \<Rightarrow> 'a) \<Rightarrow> nat \<Rightarrow> 'a::ab_group_add list \<Rightarrow> nat \<Rightarrow> 'a list \<Rightarrow> 'a list" where
  "ihaar_step half N1 data x buffer =
     (let h = data ! (N1 div 2 + x);
          l = data ! x
      in (buffer[2 * x := half (l - h)])[2 * x + 1 := half (l + h)])"

definition ihaar_row ::
  "('a \<Rightarrow> 'a) \<Rightarrow> nat \<Rightarrow> 'a::ab_group_add list \<times> 'a list \<Rightarrow> 'a list \<times> 'a list" where
  "ihaar_row half N1 s =
     (let buffer = fold (ihaar_step half N1 (snd s)) [0..<N1 div 2] (fst s)
      in (buffer, copy_back N1 buffer (snd s)))"

definition ihaar :: "('a \<Rightarrow> 'a) \<Rightarrow> nat \<Rightarrow> nat \<Rightarrow> 'a::ab_group_add list list \<Rightarrow> 'a list list" where
  "ihaar half N0 N1 rows = rows_loop (ihaar_row half N1) N0 (replicate N1 0) rows"


section \<open>Row transforms: the coefficient-driven wavelet\<close>

text \<open>
  \<^verbatim>\<open>_access(data, N, p, step)\<close>: the zero value outside \<open>0 \<le> p < N\<close>, the logical
  element \<open>p\<close> inside.
\<close>

definition access :: "'a::zero list \<Rightarrow> nat \<Rightarrow> int \<Rightarrow> 'a" where
  "access data N p = (if p < 0 then 0 else if p \<ge> int N then 0 else data ! nat p)"

text \<open>
  The body of the loop over \<open>ci\<close> in \<^verbatim>\<open>wavelet\<close>; the state is \<open>(l, h, even')\<close>.
  The coefficients are \<^verbatim>\<open>float\<close>, the samples are \<open>T\<close>; both are read in one exact
  field here.
\<close>

definition wavelet_tap ::
  "'a::field list \<Rightarrow> nat \<Rightarrow> nat \<Rightarrow> 'a list \<Rightarrow> nat \<Rightarrow> nat \<Rightarrow> 'a \<times> 'a \<times> bool \<Rightarrow> 'a \<times> 'a \<times> bool" where
  "wavelet_tap coeffs ncoeffs N1 data x ci s =
     (case s of (l, h, even') \<Rightarrow>
        let val = access data N1 (2 * int x + int ci);
            cl = coeffs ! (ncoeffs - ci - 1);
            ch = (if even' then - 1 else 1) * coeffs ! ci
        in (l + cl * val, h + ch * val, \<not> even'))"

definition wavelet_step ::
  "'a::field list \<Rightarrow> nat \<Rightarrow> nat \<Rightarrow> 'a list \<Rightarrow> nat \<Rightarrow> 'a list \<Rightarrow> 'a list" where
  "wavelet_step coeffs ncoeffs N1 data x buffer =
     (case fold (wavelet_tap coeffs ncoeffs N1 data x) [0..<ncoeffs] (0, 0, True) of
        (l, h, even') \<Rightarrow> (buffer[x := l])[N1 div 2 + x := h])"

definition wavelet_row ::
  "'a::field list \<Rightarrow> nat \<Rightarrow> nat \<Rightarrow> 'a list \<times> 'a list \<Rightarrow> 'a list \<times> 'a list" where
  "wavelet_row coeffs ncoeffs N1 s =
     (let buffer = fold (wavelet_step coeffs ncoeffs N1 (snd s)) [0..<N1 div 2] (fst s)
      in (buffer, copy_back N1 buffer (snd s)))"

definition wavelet :: "'a::field list \<Rightarrow> nat \<Rightarrow> nat \<Rightarrow> nat \<Rightarrow> 'a list list \<Rightarrow> 'a list list" where
  "wavelet coeffs ncoeffs N0 N1 rows =
     rows_loop (wavelet_row coeffs ncoeffs N1) N0 (replicate N1 0) rows"

text \<open>\<^verbatim>\<open>_is_even(x)\<close> is \<^verbatim>\<open>(x & 1) == 0\<close> on a two's-complement \<^verbatim>\<open>int\<close>.\<close>

definition is_even :: "int \<Rightarrow> bool" where
  "is_even x = (x AND 1 = 0)"

text \<open>
  The body of the loop over \<open>ci\<close> in \<^verbatim>\<open>iwavelet\<close>; the state is \<open>(l, h)\<close>.  Here
  \<open>low = data\<close> and \<open>high = data + step*N1/2\<close>, each read through \<^verbatim>\<open>_access\<close> with
  bound \<open>N1/2\<close>; \<open>high\<close> is read as the row from its logical element \<open>N1 div 2\<close> on
  (even \<open>N1\<close>, or \<open>step = 1\<close>; see the first section).  C++ integer division
  truncates towards zero: \<open>sdiv\<close>.
\<close>

definition iwavelet_tap ::
  "'a::field list \<Rightarrow> nat \<Rightarrow> nat \<Rightarrow> 'a list \<Rightarrow> nat \<Rightarrow> nat \<Rightarrow> 'a \<times> 'a \<Rightarrow> 'a \<times> 'a" where
  "iwavelet_tap coeffs ncoeffs N1 data x ci s =
     (case s of (l, h) \<Rightarrow>
        let xmap2 = int x + int ci - int ncoeffs + 2
        in if \<not> is_even xmap2
           then
             let xmap = xmap2 sdiv 2;
                 cl = coeffs ! ci;
                 ch = (if is_even (int ci) then 1 else - 1) * coeffs ! (ncoeffs - ci - 1)
             in (l + cl * access data (N1 div 2) xmap,
                 h + ch * access (drop (N1 div 2) data) (N1 div 2) xmap)
           else (l, h))"

definition iwavelet_step ::
  "'a::field list \<Rightarrow> nat \<Rightarrow> nat \<Rightarrow> 'a list \<Rightarrow> nat \<Rightarrow> 'a list \<Rightarrow> 'a list" where
  "iwavelet_step coeffs ncoeffs N1 data x buffer =
     (case fold (iwavelet_tap coeffs ncoeffs N1 data x) [0..<ncoeffs] (0, 0) of
        (l, h) \<Rightarrow> buffer[x := (l + h) / 2])"

definition iwavelet_row ::
  "'a::field list \<Rightarrow> nat \<Rightarrow> nat \<Rightarrow> 'a list \<times> 'a list \<Rightarrow> 'a list \<times> 'a list" where
  "iwavelet_row coeffs ncoeffs N1 s =
     (let buffer = fold (iwavelet_step coeffs ncoeffs N1 (snd s)) [0..<N1] (fst s)
      in (buffer, copy_back N1 buffer (snd s)))"

definition iwavelet :: "'a::field list \<Rightarrow> nat \<Rightarrow> nat \<Rightarrow> nat \<Rightarrow> 'a list list \<Rightarrow> 'a list list" where
  "iwavelet coeffs ncoeffs N0 N1 rows =
     rows_loop (iwavelet_row coeffs ncoeffs N1) N0 (replicate N1 0) rows"

section \<open>The Daubechies coefficient tables\<close>

text \<open>The tables \<open>D2\<close> .. \<open>D20\<close>, each decimal literal read exactly.\<close>

definition D2 :: "'a::field list" where
  "D2 = [1, 1]"

definition D4 :: "'a::field list" where
  "D4 = [6830127 / 10^7, 11830127 / 10^7, 3169873 / 10^7, - 1830127 / 10^7]"

definition D6 :: "'a::field list" where
  "D6 = [47046721 / 10^8, 114111692 / 10^8, 650365 / 10^6, - 19093442 / 10^8,
         - 12083221 / 10^8, 498175 / 10^7]"

definition D8 :: "'a::field list" where
  "D8 = [32580343 / 10^8, 101094572 / 10^8, 8922014 / 10^7, - 3957503 / 10^8,
         - 26450717 / 10^8, 436163 / 10^7, 465036 / 10^7, - 1498699 / 10^8]"

definition D10 :: "'a::field list" where
  "D10 = [22641898 / 10^8, 85394354 / 10^8, 102432694 / 10^8, 19576696 / 10^8,
          - 34265671 / 10^8, - 4560113 / 10^8, 10970265 / 10^8, - 88268 / 10^7,
          - 1779187 / 10^8, 471743 / 10^8]"

definition D12 :: "'a::field list" where
  "D12 = [157742430 / 10^9, 699503810 / 10^9, 106226376 / 10^8,
          445831320 / 10^9, - 319986600 / 10^9, - 183518060 / 10^9,
          137888090 / 10^9, 389232100 / 10^10, - 446637500 / 10^10,
          783251152 / 10^12, 675606236 / 10^11, - 152353381 / 10^11]"

definition D14 :: "'a::field list" where
  "D14 = [110099430 / 10^9, 560791280 / 10^9, 103114849 / 10^8,
          664372480 / 10^9, - 203513820 / 10^9, - 316835010 / 10^9,
          100846700 / 10^9, 114003450 / 10^9, - 537824500 / 10^10,
          - 234399400 / 10^10, 177497900 / 10^10, 607514995 / 10^12,
          - 254790472 / 10^11, 500226853 / 10^12]"

definition D16 :: "'a::field list" where
  "D16 = [769556200 / 10^10, 442467250 / 10^9, 955486150 / 10^9,
          827816530 / 10^9, - 223857400 / 10^10, - 401658630 / 10^9,
          668194092 / 10^12, 182076360 / 10^9, - 245639000 / 10^10,
          - 623502100 / 10^10, 197721600 / 10^10, 123688400 / 10^10,
          - 688771926 / 10^11, - 554004549 / 10^12, 955229711 / 10^12,
          - 166137261 / 10^12]"

definition D18 :: "'a::field list" where
  "D18 = [538503500 / 10^10, 344834300 / 10^9, 855349060 / 10^9,
          929545710 / 10^9, 188369550 / 10^9, - 414751760 / 10^9,
          - 136953550 / 10^9, 210068340 / 10^9, 434526750 / 10^10,
          - 956472600 / 10^10, 354892813 / 10^12, 316241700 / 10^10,
          - 667962023 / 10^11, - 605496058 / 10^11, 261296728 / 10^11,
          325814671 / 10^12, - 356329759 / 10^12, 556455140 / 10^13]"

definition D20 :: "'a::field list" where
  "D20 = [377171600 / 10^10, 266122180 / 10^9, 745575070 / 10^9,
          973628110 / 10^9, 397637740 / 10^9, - 353336200 / 10^9,
          - 277109880 / 10^9, 180127450 / 10^9, 131602990 / 10^9,
          - 100966570 / 10^9, - 416592500 / 10^10, 469698100 / 10^10,
          510043697 / 10^11, - 151790000 / 10^10, 197332536 / 10^11,
          281768659 / 10^11, - 969947840 / 10^12, - 164709006 / 10^12,
          132354367 / 10^12, - 187584100 / 10^13]"

text \<open>\<^verbatim>\<open>dcoeffs\<close>: \<open>None\<close> is the \<^verbatim>\<open>NULL\<close> return (with the Python error set).\<close>

definition dcoeffs :: "int \<Rightarrow> 'a::field list option" where
  "dcoeffs code =
     (if code = 0 then Some D2
      else if code = 1 then Some D4
      else if code = 2 then Some D6
      else if code = 3 then Some D8
      else if code = 4 then Some D10
      else if code = 5 then Some D12
      else if code = 6 then Some D14
      else if code = 7 then Some D16
      else if code = 8 then Some D18
      else if code = 9 then Some D20
      else None)"


section \<open>The Python entry points of the transforms\<close>

text \<open>
  An entry point either sets a Python error and returns \<^verbatim>\<open>NULL\<close> (\<open>Inl\<close>) or returns
  its array argument (\<open>Inr\<close>); the second component is the array object after the
  call, so that an in-place mutation and its absence are both visible.
\<close>

datatype message = TypeErrorMsg | OutputErrorMsg | DispatchErrorMsg

datatype error = RuntimeError message

datatype elem_type = Integer | Floating | Other

text \<open>
  The array object: \<open>is_array\<close> is \<^verbatim>\<open>PyArray_Check\<close>, \<open>typenum\<close> is \<^verbatim>\<open>PyArray_TYPE\<close>,
  \<open>dims\<close> is \<^verbatim>\<open>PyArray_DIMS\<close> (so \<^verbatim>\<open>PyArray_NDIM\<close> is its length), \<open>contents\<close> is
  the data read as rows along the last axis.
\<close>

record 'a ndarray =
  is_array :: bool
  typenum :: elem_type
  dims :: "nat list"
  contents :: "'a list list"

text \<open>
  The macro \<^verbatim>\<open>SAFE_SWITCH_ON_FLOAT_TYPES_OF\<close> of \<^verbatim>\<open>numpypp/dispatch.hpp\<close> is not among
  the sources, so which element types it dispatches is not fixed here: it is the
  parameter \<open>handles\<close> of the entry points, \<open>handles t\<close> saying that the macro runs the
  \<^verbatim>\<open>HANDLE\<close> body for an array of element type \<open>t\<close>.  For a type it does not run the
  body for, the entry points are taken to fail with the array as it was; no statement
  below rests on that branch.
\<close>

text \<open>
  \<^verbatim>\<open>py_daubechies\<close> and \<^verbatim>\<open>py_idaubechies\<close>: \<open>code\<close> is the parsed \<^verbatim>\<open>int\<close>, read
  here as an unbounded integer.  The source computes \<open>ncoeffs = 2*(code + 1)\<close> before
  it tests the table for \<^verbatim>\<open>NULL\<close>, but uses it only once \<^verbatim>\<open>dcoeffs\<close> has returned a
  table (the addition can only overflow a C \<^verbatim>\<open>int\<close> for \<open>code = INT_MAX\<close>, outside
  the table).
\<close>

definition py_daubechies ::
  "(elem_type \<Rightarrow> bool) \<Rightarrow> 'a::field ndarray \<Rightarrow> int \<Rightarrow> (error + unit) \<times> 'a ndarray" where
  "py_daubechies handles array code =
     (if \<not> is_array array \<or> length (dims array) \<noteq> 2
      then (Inl (RuntimeError TypeErrorMsg), array)
      else
        (case dcoeffs code of
           None \<Rightarrow> (Inl (RuntimeError TypeErrorMsg), array)
         | Some coeffs \<Rightarrow>
             let ncoeffs = nat (2 * (code + 1))
             in if handles (typenum array)
                then (Inr (), array\<lparr>contents :=
                        wavelet coeffs ncoeffs (dims array ! 0) (dims array ! 1) (contents array)\<rparr>)
                else (Inl (RuntimeError DispatchErrorMsg), array)))"

definition py_idaubechies ::
  "(elem_type \<Rightarrow> bool) \<Rightarrow> 'a::field ndarray \<Rightarrow> int \<Rightarrow> (error + unit) \<times> 'a ndarray" where
  "py_idaubechies handles array code =
     (if \<not> is_array array \<or> length (dims array) \<noteq> 2
      then (Inl (RuntimeError TypeErrorMsg), array)
      else
        (case dcoeffs code of
           None \<Rightarrow> (Inl (RuntimeError TypeErrorMsg), array)
         | Some coeffs \<Rightarrow>
             let ncoeffs = nat (2 * (code + 1))
             in if handles (typenum array)
                then (Inr (), array\<lparr>contents :=
                        iwavelet coeffs ncoeffs (dims array ! 0) (dims array ! 1) (contents array)\<rparr>)
                else (Inl (RuntimeError DispatchErrorMsg), array)))"

section \<open>The sliding-window kernels\<close>

text \<open>
  \<^verbatim>\<open>filter_iterator\<close> (\<^verbatim>\<open>_filters.h\<close>) is not among the sources; the kernels take what
  they use of it as parameters: \<open>N2\<close> is \<^verbatim>\<open>fiter.size()\<close>, \<open>retrieve i j\<close> is
  \<^verbatim>\<open>fiter.retrieve(iter, j, val)\<close> at the \<open>i\<close>-th position of the walk (\<open>Some val\<close> when it
  returns true), \<open>weight j\<close> is \<^verbatim>\<open>fiter[j]\<close>.  The output is the flat, densely packed
  result array, element \<open>i\<close> being written at the \<open>i\<close>-th position.
\<close>

text \<open>
  \<^verbatim>\<open>convolve\<close>: \<open>cur\<close> is a \<^verbatim>\<open>double\<close>, read here as an exact real; \<open>to_double\<close> is
  the conversion \<^verbatim>\<open>double(val)\<close> and \<open>of_double\<close> the cast \<^verbatim>\<open>T(cur)\<close>.
\<close>

definition convolve_tap ::
  "('a \<Rightarrow> real) \<Rightarrow> (nat \<Rightarrow> nat \<Rightarrow> 'a option) \<Rightarrow> (nat \<Rightarrow> 'a) \<Rightarrow> nat \<Rightarrow> nat \<Rightarrow> real \<Rightarrow> real" where
  "convolve_tap to_double retrieve weight i j cur =
     (case retrieve i j of
        Some val \<Rightarrow> cur + to_double val * to_double (weight j)
      | None \<Rightarrow> cur)"

definition convolve ::
  "('a \<Rightarrow> real) \<Rightarrow> (real \<Rightarrow> 'a) \<Rightarrow> (nat \<Rightarrow> nat \<Rightarrow> 'a option) \<Rightarrow> (nat \<Rightarrow> 'a) \<Rightarrow>
   nat \<Rightarrow> nat \<Rightarrow> 'a list \<Rightarrow> 'a list" where
  "convolve to_double of_double retrieve weight N N2 result =
     fold (\<lambda>i out.
        out[i := of_double (fold (convolve_tap to_double retrieve weight i) [0..<N2] 0)])
       [0..<N] result"

text \<open>
  \<^verbatim>\<open>template_match\<close>: everything is computed in the element type \<open>T\<close>; for an
  unsigned \<open>T\<close> of \<open>w\<close> bits that is \<open>w word\<close>, whose order is the unsigned one and
  whose arithmetic wraps.  \<open>delta\<close> is the initialiser of the source's \<^verbatim>\<open>const T delta\<close>.
\<close>

definition delta :: "'a::{linorder, ring} \<Rightarrow> 'a \<Rightarrow> 'a" where
  "delta val tj = (if val > tj then val - tj else tj - val)"

definition template_match_tap ::
  "(nat \<Rightarrow> nat \<Rightarrow> 'a option) \<Rightarrow> (nat \<Rightarrow> 'a) \<Rightarrow> nat \<Rightarrow> nat \<Rightarrow> 'a::{linorder, ring} \<Rightarrow> 'a" where
  "template_match_tap retrieve weight i j diff2 =
     (case retrieve i j of
        Some val \<Rightarrow>
          let tj = weight j
          in diff2 + delta val tj * delta val tj
      | None \<Rightarrow> diff2)"

definition template_match ::
  "(nat \<Rightarrow> nat \<Rightarrow> 'a option) \<Rightarrow> (nat \<Rightarrow> 'a) \<Rightarrow> nat \<Rightarrow> nat \<Rightarrow> 'a::{linorder, ring} list \<Rightarrow> 'a list" where
  "template_match retrieve weight N N2 res =
     fold (\<lambda>i out. out[i := fold (template_match_tap retrieve weight i) [0..<N2] 0])
       [0..<N] res"

text \<open>
  \<^verbatim>\<open>rank_filter\<close>.  The scratch array \<open>neighbours\<close> (\<^verbatim>\<open>new T[N2]\<close>, not initialised:
  its first contents are the parameter \<open>nb0\<close>) lives across the positions.
  \<^verbatim>\<open>std::nth_element(first, nth, last)\<close> is the standard library's; it is the
  parameter \<open>sel\<close>, applied to the range \<open>[first, last)\<close> with \<open>nth - first\<close>, and
  \<open>nth_element_post\<close> is what the C++ standard promises of it.  The scaled rank
  \<^verbatim>\<open>int(n * rank/float(N2))\<close> is read as the exact truncated quotient (it is for
  \<open>n * rank < 2^24\<close>).
\<close>

definition nth_element_post :: "(nat \<Rightarrow> 'a::linorder list \<Rightarrow> 'a list) \<Rightarrow> bool" where
  "nth_element_post sel =
     (\<forall>k xs. mset (sel k xs) = mset xs \<and>
        (k < length xs \<longrightarrow> sel k xs ! k = sort xs ! k \<and>
           (\<forall>i<k. sel k xs ! i \<le> sel k xs ! k) \<and>
           (\<forall>i. k < i \<and> i < length xs \<longrightarrow> sel k xs ! k \<le> sel k xs ! i)))"

definition nth_element ::
  "(nat \<Rightarrow> 'a list \<Rightarrow> 'a list) \<Rightarrow> 'a list \<Rightarrow> nat \<Rightarrow> nat \<Rightarrow> 'a list" where
  "nth_element sel neighbours nth' n = sel nth' (take n neighbours) @ drop n neighbours"

definition collect_tap ::
  "(nat \<Rightarrow> nat \<Rightarrow> 'a option) \<Rightarrow> nat \<Rightarrow> nat \<Rightarrow> 'a list \<times> nat \<Rightarrow> 'a list \<times> nat" where
  "collect_tap retrieve i j s =
     (case s of (neighbours, n) \<Rightarrow>
        (case retrieve i j of
           Some val \<Rightarrow> (neighbours[n := val], n + 1)
         | None \<Rightarrow> (neighbours, n)))"

definition rank_filter_step ::
  "(nat \<Rightarrow> 'a list \<Rightarrow> 'a list) \<Rightarrow> (nat \<Rightarrow> nat \<Rightarrow> 'a option) \<Rightarrow> nat \<Rightarrow> int \<Rightarrow> nat \<Rightarrow>
   'a list \<times> 'a list \<Rightarrow> 'a list \<times> 'a list" where
  "rank_filter_step sel retrieve N2 rank i s =
     (case s of (neighbours, res) \<Rightarrow>
        (case fold (collect_tap retrieve i) [0..<N2] (neighbours, 0) of
           (neighbours1, n) \<Rightarrow>
             let currank = (if n \<noteq> N2 then (int n * rank) sdiv int N2 else rank);
                 neighbours2 = nth_element sel neighbours1 (nat currank) n
             in (neighbours2, res[i := neighbours2 ! nat rank])))"

definition rank_filter ::
  "(nat \<Rightarrow> 'a list \<Rightarrow> 'a list) \<Rightarrow> (nat \<Rightarrow> nat \<Rightarrow> 'a option) \<Rightarrow> nat \<Rightarrow> nat \<Rightarrow> int \<Rightarrow>
   'a list \<Rightarrow> 'a list \<Rightarrow> 'a list" where
  "rank_filter sel retrieve N N2 rank nb0 res =
     (if rank < 0 \<or> rank \<ge> int N2 then res
      else snd (fold (rank_filter_step sel retrieve N2 rank) [0..<N] (nb0, res)))"

text \<open>
  Modelled from the spec: \<^verbatim>\<open>filter_iterator::retrieve\<close> for a one-dimensional array
  and a centred filter of \<open>N2\<close> taps in the mode that reports an out-of-range tap as
  not valid (\<^verbatim>\<open>_filters.h\<close> is not among the sources).  Tap \<open>j\<close> at position \<open>i\<close>
  reads the coordinate offset by \<open>j\<close>'s position relative to the filter's centre.
\<close>

definition retrieve_1d :: "'a list \<Rightarrow> nat \<Rightarrow> nat \<Rightarrow> nat \<Rightarrow> 'a option" where
  "retrieve_1d array N2 i j =
     (let p = int i + int j - int (N2 div 2)
      in if 0 \<le> p \<and> p < int (length array) then Some (array ! nat p) else None)"


section \<open>Well-formed arrays and the closed form of a transformed row\<close>

definition wf_array :: "nat \<Rightarrow> nat \<Rightarrow> 'a list list \<Rightarrow> bool" where
  "wf_array N0 N1 rows = (length rows = N0 \<and> (\<forall>r \<in> set rows. length r = N1))"

text \<open>What the buffer is between two rows: of length \<open>N1\<close>, its odd last slot still zero.\<close>

definition buf_inv :: "nat \<Rightarrow> 'a::zero list \<Rightarrow> bool" where
  "buf_inv N1 buf = (length buf = N1 \<and> (odd N1 \<longrightarrow> buf ! (N1 - 1) = 0))"

text \<open>A row laid out as a low half, a high half and, for odd \<open>N1\<close>, a zero.\<close>

definition lowhigh_out :: "nat \<Rightarrow> (nat \<Rightarrow> 'a) \<Rightarrow> (nat \<Rightarrow> 'a) \<Rightarrow> 'a::zero list" where
  "lowhigh_out N1 lo hi =
     map (\<lambda>i. if i < N1 div 2 then lo i
              else if i < 2 * (N1 div 2) then hi (i - N1 div 2)
              else 0) [0..<N1]"

definition haar_out :: "nat \<Rightarrow> 'a::ab_group_add list \<Rightarrow> 'a list" where
  "haar_out N1 data =
     lowhigh_out N1 (\<lambda>x. data ! (2 * x) + data ! (2 * x + 1))
                    (\<lambda>x. data ! (2 * x + 1) - data ! (2 * x))"

definition ihaar_out :: "('a \<Rightarrow> 'a) \<Rightarrow> nat \<Rightarrow> 'a::ab_group_add list \<Rightarrow> 'a list" where
  "ihaar_out half N1 data =
     map (\<lambda>i. if i < 2 * (N1 div 2)
              then (if even i then half (data ! (i div 2) - data ! (N1 div 2 + i div 2))
                    else half (data ! (i div 2) + data ! (N1 div 2 + i div 2)))
              else 0) [0..<N1]"

text \<open>The rows of \<^verbatim>\<open>wavelet\<close> and \<^verbatim>\<open>iwavelet\<close> as sums over the taps.\<close>

definition wavelet_low :: "'a::field list \<Rightarrow> nat \<Rightarrow> nat \<Rightarrow> 'a list \<Rightarrow> nat \<Rightarrow> 'a" where
  "wavelet_low coeffs ncoeffs N1 data x =
     (\<Sum>ci<ncoeffs. coeffs ! (ncoeffs - ci - 1) * access data N1 (2 * int x + int ci))"

definition wavelet_high :: "'a::field list \<Rightarrow> nat \<Rightarrow> nat \<Rightarrow> 'a list \<Rightarrow> nat \<Rightarrow> 'a" where
  "wavelet_high coeffs ncoeffs N1 data x =
     (\<Sum>ci<ncoeffs. (if even ci then - 1 else 1) * coeffs ! ci
                       * access data N1 (2 * int x + int ci))"

definition wavelet_out :: "'a::field list \<Rightarrow> nat \<Rightarrow> nat \<Rightarrow> 'a list \<Rightarrow> 'a list" where
  "wavelet_out coeffs ncoeffs N1 data =
     lowhigh_out N1 (wavelet_low coeffs ncoeffs N1 data) (wavelet_high coeffs ncoeffs N1 data)"

definition iwavelet_l :: "'a::field list \<Rightarrow> nat \<Rightarrow> nat \<Rightarrow> 'a list \<Rightarrow> nat \<Rightarrow> 'a" where
  "iwavelet_l coeffs ncoeffs N1 data x =
     (\<Sum>ci<ncoeffs. if odd (int x + int ci - int ncoeffs + 2)
         then coeffs ! ci * access data (N1 div 2) ((int x + int ci - int ncoeffs + 2) sdiv 2)
         else 0)"

definition iwavelet_h :: "'a::field list \<Rightarrow> nat \<Rightarrow> nat \<Rightarrow> 'a list \<Rightarrow> nat \<Rightarrow> 'a" where
  "iwavelet_h coeffs ncoeffs N1 data x =
     (\<Sum>ci<ncoeffs. if odd (int x + int ci - int ncoeffs + 2)
         then (if even ci then 1 else - 1) * coeffs ! (ncoeffs - ci - 1)
              * access (drop (N1 div 2) data) (N1 div 2)
                  ((int x + int ci - int ncoeffs + 2) sdiv 2)
         else 0)"

definition iwavelet_out :: "'a::field list \<Rightarrow> nat \<Rightarrow> nat \<Rightarrow> 'a list \<Rightarrow> 'a list" where
  "iwavelet_out coeffs ncoeffs N1 data =
     map (\<lambda>x. (iwavelet_l coeffs ncoeffs N1 data x + iwavelet_h coeffs ncoeffs N1 data x) / 2)
       [0..<N1]"

text \<open>
  The high-pass sum as the specification words it: \<open>(\<plusminus>1)^ci\<close> with the sign
  positive at \<open>ci = 0\<close>, a sample outside \<open>0 \<le> p < N1\<close> counting as zero.
\<close>

definition claimed_sample :: "'a::zero list \<Rightarrow> nat \<Rightarrow> int \<Rightarrow> 'a" where
  "claimed_sample data N1 p = (if p < 0 \<or> int N1 \<le> p then 0 else data ! nat p)"

definition claimed_high :: "'a::field list \<Rightarrow> nat \<Rightarrow> nat \<Rightarrow> 'a list \<Rightarrow> nat \<Rightarrow> 'a" where
  "claimed_high coeffs ncoeffs N1 data x =
     (\<Sum>ci<ncoeffs. (- 1) ^ ci * coeffs ! ci * claimed_sample data N1 (2 * int x + int ci))"

text \<open>
  The rank filter's output as the specification words it: the element of the collected
  valid tap values at the scaled rank \<open>floor (n * rank / N2)\<close>.
\<close>

definition claimed_rank_value :: "(nat \<Rightarrow> nat \<Rightarrow> 'a::linorder option) \<Rightarrow> nat \<Rightarrow> int \<Rightarrow> nat \<Rightarrow> 'a" where
  "claimed_rank_value retrieve N2 rank i =
     (let valid = List.map_filter (retrieve i) [0..<N2];
          n = length valid
      in sort valid ! nat ((int n * rank) div int N2))"

text \<open>
  Forward after inverse, regrouped.  \<open>fwd_low\<close>, \<open>fwd_high\<close> are the weights
  \<^verbatim>\<open>cl\<close>, \<^verbatim>\<open>ch\<close> of \<^verbatim>\<open>wavelet\<close> at tap \<open>ci\<close>; \<open>inv_low\<close>, \<open>inv_high\<close> those of
  \<^verbatim>\<open>iwavelet\<close> at tap \<open>cj\<close>.  \<open>pair_sum n F e\<close> adds \<open>F ci cj\<close> over the taps with
  \<open>ci + cj = 2e + 1\<close>, and \<open>src_at\<close> is the element of a half row that such a pair of
  taps reads at output position \<open>x\<close>.  \<open>low_err\<close> and \<open>high_err\<close> measure how far the
  regrouped weights are from those of the identity (\<open>two\<close> at \<open>e = k\<close>, zero elsewhere).
\<close>

definition pair_sum :: "nat \<Rightarrow> (nat \<Rightarrow> nat \<Rightarrow> 'a::comm_monoid_add) \<Rightarrow> nat \<Rightarrow> 'a" where
  "pair_sum n F e =
     (\<Sum>ci<n. if ci \<le> 2 * e + 1 \<and> 2 * e + 1 - ci < n then F ci (2 * e + 1 - ci) else 0)"

definition roundtrip_err ::
  "nat \<Rightarrow> (nat \<Rightarrow> nat \<Rightarrow> 'a) \<Rightarrow> (nat \<Rightarrow> nat \<Rightarrow> 'a) \<Rightarrow> nat \<Rightarrow> 'a \<Rightarrow> 'a::linordered_idom" where
  "roundtrip_err n Fs Fc k two =
     (\<Sum>e<n. \<bar>pair_sum n Fs e - (if e = k then two else 0)\<bar> + \<bar>pair_sum n Fc e\<bar>)"

definition fwd_low :: "'a list \<Rightarrow> nat \<Rightarrow> nat \<Rightarrow> 'a" where
  "fwd_low c n ci = c ! (n - ci - 1)"

definition fwd_high :: "'a::ring_1 list \<Rightarrow> nat \<Rightarrow> 'a" where
  "fwd_high c ci = (if even ci then - 1 else 1) * c ! ci"

definition inv_low :: "'a list \<Rightarrow> nat \<Rightarrow> 'a" where
  "inv_low c cj = c ! cj"

definition inv_high :: "'a::ring_1 list \<Rightarrow> nat \<Rightarrow> nat \<Rightarrow> 'a" where
  "inv_high c n cj = (if even cj then 1 else - 1) * c ! (n - cj - 1)"

definition low_err :: "'a::linordered_idom list \<Rightarrow> nat \<Rightarrow> nat \<Rightarrow> 'a \<Rightarrow> 'a" where
  "low_err c n k two =
     roundtrip_err n (\<lambda>ci cj. fwd_low c n ci * inv_low c cj)
                     (\<lambda>ci cj. fwd_low c n ci * inv_high c n cj) k two"

definition high_err :: "'a::linordered_idom list \<Rightarrow> nat \<Rightarrow> nat \<Rightarrow> 'a \<Rightarrow> 'a" where
  "high_err c n k two =
     roundtrip_err n (\<lambda>ci cj. fwd_high c ci * inv_high c n cj)
                     (\<lambda>ci cj. fwd_high c ci * inv_low c cj) k two"

definition src_at :: "'a::zero list \<Rightarrow> nat \<Rightarrow> nat \<Rightarrow> nat \<Rightarrow> nat \<Rightarrow> 'a" where
  "src_at half_row M x k e = access half_row M ((2 * (int x + int e - int k) + 1) sdiv 2)"

text \<open>
  The tables again, every entry multiplied by the power of ten that makes the whole
  table integral, and the tolerance proved below for order code \<open>k\<close>.
\<close>

definition D2_scaled :: "int list" where
  "D2_scaled = [1, 1]"

definition D4_scaled :: "int list" where
  "D4_scaled = [6830127, 11830127, 3169873, - 1830127]"

definition D6_scaled :: "int list" where
  "D6_scaled = [47046721, 114111692, 65036500, - 19093442, - 12083221, 4981750]"

definition D8_scaled :: "int list" where
  "D8_scaled = [32580343, 101094572, 89220140, - 3957503, - 26450717, 4361630, 4650360,
                 - 1498699]"

definition D10_scaled :: "int list" where
  "D10_scaled = [22641898, 85394354, 102432694, 19576696, - 34265671, - 4560113, 10970265,
                  - 882680, - 1779187, 471743]"

definition D12_scaled :: "int list" where
  "D12_scaled = [157742430000, 699503810000, 1062263760000, 445831320000, - 319986600000,
                  - 183518060000, 137888090000, 38923210000, - 44663750000, 783251152,
                  6756062360, - 1523533810]"

definition D14_scaled :: "int list" where
  "D14_scaled = [110099430000, 560791280000, 1031148490000, 664372480000, - 203513820000,
                  - 316835010000, 100846700000, 114003450000, - 53782450000, - 23439940000,
                  17749790000, 607514995, - 2547904720, 500226853]"

definition D16_scaled :: "int list" where
  "D16_scaled = [76955620000, 442467250000, 955486150000, 827816530000, - 22385740000,
                  - 401658630000, 668194092, 182076360000, - 24563900000, - 62350210000,
                  19772160000, 12368840000, - 6887719260, - 554004549, 955229711, - 166137261]"

definition D18_scaled :: "int list" where
  "D18_scaled = [53850350000, 344834300000, 855349060000, 929545710000, 188369550000,
                  - 414751760000, - 136953550000, 210068340000, 43452675000, - 95647260000,
                  354892813, 31624170000, - 6679620230, - 6054960580, 2612967280, 325814671,
                  - 356329759, 55645514]"

definition D20_scaled :: "int list" where
  "D20_scaled = [37717160000, 266122180000, 745575070000, 973628110000, 397637740000,
                  - 353336200000, - 277109880000, 180127450000, 131602990000, - 100966570000,
                  - 41659250000, 46969810000, 5100436970, - 15179000000, 1973325360, 2817686590,
                  - 969947840, - 164709006, 132354367, - 18758410]"

definition daub_tol :: "nat \<Rightarrow> 'a::linordered_field" where
  "daub_tol k = (if k = 0 then 0 else 2 / 10 ^ 6)"

section \<open>The loops, in closed form\<close>

lemma copy_back_length [simp]: "length (copy_back n buffer data) = length data"
  unfolding copy_back_def by (induction n) simp_all

lemma copy_back_nth:
  "i < length data \<Longrightarrow> copy_back n buffer data ! i = (if i < n then buffer ! i else data ! i)"
proof (induction n)
  case 0
  show ?case by (simp add: copy_back_def)
next
  case (Suc n)
  have "copy_back (Suc n) buffer data = (copy_back n buffer data)[n := buffer ! n]"
    by (simp add: copy_back_def)
  with Suc show ?case by (auto simp: nth_list_update less_Suc_eq)
qed

lemma copy_back_all:
  assumes "length data = n" "length buffer = n"
  shows "copy_back n buffer data = buffer"
  by (rule nth_equalityI) (use assms in \<open>simp_all add: copy_back_nth\<close>)

lemma rows_loop_fold:
  assumes P0: "P buf0"
    and step: "\<And>buf row. P buf \<Longrightarrow> row \<in> set rows \<Longrightarrow>
                 P (fst (f (buf, row))) \<and> snd (f (buf, row)) = g row"
    and k: "k \<le> length rows"
  shows "\<exists>buf. P buf \<and>
           fold (\<lambda>y (buf, rs). let (buf', d) = f (buf, rs ! y) in (buf', rs[y := d]))
             [0..<k] (buf0, rows) = (buf, map g (take k rows) @ drop k rows)"
proof -
  define F where "F = (\<lambda>y (buf, rs). let (buf', d) = f (buf, rs ! y) in (buf', rs[y := d]))"
  have "\<exists>buf. P buf \<and> fold F [0..<k] (buf0, rows) = (buf, map g (take k rows) @ drop k rows)"
    using k
  proof (induction k)
    case 0
    show ?case using P0 by simp
  next
    case (Suc k)
    then obtain buf where b: "P buf"
      and eq: "fold F [0..<k] (buf0, rows) = (buf, map g (take k rows) @ drop k rows)"
      by auto
    have klt: "k < length rows" using Suc.prems by simp
    have rk: "(map g (take k rows) @ drop k rows) ! k = rows ! k"
      using klt by (simp add: nth_append)
    have mem: "rows ! k \<in> set rows" using klt by simp
    from step [OF b mem] have p': "P (fst (f (buf, rows ! k)))"
      and s': "snd (f (buf, rows ! k)) = g (rows ! k)" by auto
    have upd: "(map g (take k rows) @ drop k rows)[k := g (rows ! k)]
               = map g (take (Suc k) rows) @ drop (Suc k) rows"
      using klt
      by (simp add: take_Suc_conv_app_nth list_update_append Cons_nth_drop_Suc [symmetric])
    have "fold F [0..<Suc k] (buf0, rows) = F k (buf, map g (take k rows) @ drop k rows)"
      by (simp add: eq)
    also have "\<dots> = (fst (f (buf, rows ! k)), map g (take (Suc k) rows) @ drop (Suc k) rows)"
      unfolding F_def using s' upd by (simp add: rk case_prod_unfold Let_def)
    finally show ?case using p' by blast
  qed
  then show ?thesis unfolding F_def .
qed

lemma rows_loop_map:
  assumes "P buf0"
    and "\<And>buf row. P buf \<Longrightarrow> row \<in> set rows \<Longrightarrow>
                 P (fst (f (buf, row))) \<and> snd (f (buf, row)) = g row"
    and "length rows = N0"
  shows "rows_loop f N0 buf0 rows = map g rows"
proof -
  from rows_loop_fold [of P buf0 rows f g N0, OF assms(1) assms(2)] assms(3)
  obtain buf where
    "fold (\<lambda>y (buf, rs). let (buf', d) = f (buf, rs ! y) in (buf', rs[y := d]))
             [0..<N0] (buf0, rows) = (buf, map g (take N0 rows) @ drop N0 rows)"
    by auto
  then show ?thesis using assms(3) by (simp add: rows_loop_def)
qed

lemma buf_inv_replicate: "buf_inv N1 (replicate N1 0)"
proof -
  have "N1 - 1 < N1" if "odd N1" using that by (cases N1) auto
  then show ?thesis by (simp add: buf_inv_def)
qed

lemma lowhigh_fold_length [simp]:
  "length (fold (\<lambda>x b. (b[x := lo x])[M + x := hi x]) [0..<m] buf) = length buf"
  by (induction m) simp_all

lemma lowhigh_fold_nth:
  assumes "length buf = N1" "m \<le> N1 div 2" "i < N1"
  shows "fold (\<lambda>x b. (b[x := lo x])[N1 div 2 + x := hi x]) [0..<m] buf ! i =
           (if i < m then lo i
            else if N1 div 2 \<le> i \<and> i < N1 div 2 + m then hi (i - N1 div 2)
            else buf ! i)"
  using assms(2)
proof (induction m)
  case 0
  show ?case by auto
next
  case (Suc m)
  let ?B = "fold (\<lambda>x b. (b[x := lo x])[N1 div 2 + x := hi x]) [0..<m] buf"
  have m: "m < N1 div 2" using Suc.prems by simp
  have len: "length ?B = N1" using assms(1) by simp
  have IH: "?B ! i =
           (if i < m then lo i
            else if N1 div 2 \<le> i \<and> i < N1 div 2 + m then hi (i - N1 div 2)
            else buf ! i)"
    using Suc by simp
  have step: "fold (\<lambda>x b. (b[x := lo x])[N1 div 2 + x := hi x]) [0..<Suc m] buf ! i =
        (if i = N1 div 2 + m then hi m else if i = m then lo m else ?B ! i)"
    using assms(3) len by (simp add: nth_list_update)
  consider "i = m" | "i = N1 div 2 + m" | "i \<noteq> m" "i \<noteq> N1 div 2 + m" by blast
  then show ?case
  proof cases
    case 1
    with m show ?thesis unfolding step by simp
  next
    case 2
    with m show ?thesis unfolding step by simp
  next
    case 3
    then have "(i < Suc m) = (i < m)" "(i < N1 div 2 + Suc m) = (i < N1 div 2 + m)"
      by arith+
    with 3 show ?thesis unfolding step IH by simp
  qed
qed

lemma lowhigh_out_length [simp]: "length (lowhigh_out N1 lo hi) = N1"
  by (simp add: lowhigh_out_def)

lemma lowhigh_out_nth_low: "i < N1 div 2 \<Longrightarrow> lowhigh_out N1 lo hi ! i = lo i"
  by (simp add: lowhigh_out_def)

lemma lowhigh_out_nth_high: "i < N1 div 2 \<Longrightarrow> lowhigh_out N1 lo hi ! (N1 div 2 + i) = hi i"
  by (simp add: lowhigh_out_def)

lemma lowhigh_out_nth_last: "odd N1 \<Longrightarrow> lowhigh_out N1 lo hi ! (N1 - Suc 0) = 0"
proof -
  assume "odd N1"
  then have "N1 - Suc 0 < N1" "\<not> N1 - Suc 0 < N1 div 2" "\<not> N1 - Suc 0 < 2 * (N1 div 2)"
    by presburger+
  then show ?thesis by (simp add: lowhigh_out_def)
qed

lemma lowhigh_fold_out:
  assumes "buf_inv N1 buf"
  shows "fold (\<lambda>x b. (b[x := lo x])[N1 div 2 + x := hi x]) [0..<N1 div 2] buf
         = lowhigh_out N1 lo hi"
proof (rule nth_equalityI)
  from assms have len: "length buf = N1" by (simp add: buf_inv_def)
  show "length (fold (\<lambda>x b. (b[x := lo x])[N1 div 2 + x := hi x]) [0..<N1 div 2] buf)
        = length (lowhigh_out N1 lo hi)"
    by (simp add: len)
  fix i
  assume "i < length (fold (\<lambda>x b. (b[x := lo x])[N1 div 2 + x := hi x]) [0..<N1 div 2] buf)"
  then have i: "i < N1" by (simp add: len)
  note fn = lowhigh_fold_nth [OF len le_refl i, of lo hi]
  have "i < N1 div 2 \<or> (N1 div 2 \<le> i \<and> i < 2 * (N1 div 2)) \<or> (odd N1 \<and> i = N1 - 1)"
    using i by presburger
  then consider "i < N1 div 2" | "N1 div 2 \<le> i" "i < 2 * (N1 div 2)" | "odd N1" "i = N1 - 1"
    by blast
  then show "fold (\<lambda>x b. (b[x := lo x])[N1 div 2 + x := hi x]) [0..<N1 div 2] buf ! i
             = lowhigh_out N1 lo hi ! i"
  proof cases
    case 1
    then show ?thesis unfolding fn using i by (simp add: lowhigh_out_def)
  next
    case 2
    then show ?thesis unfolding fn using i by (simp add: lowhigh_out_def)
  next
    case 3
    then have "\<not> i < N1 div 2" "\<not> i < N1 div 2 + N1 div 2"
      by presburger+
    then show ?thesis
      unfolding fn using 3 assms by (simp add: lowhigh_out_nth_last buf_inv_def)
  qed
qed

lemma lowhigh_row:
  assumes "buf_inv N1 buf" "length data = N1"
    and "B = fold (\<lambda>x b. (b[x := lo x])[N1 div 2 + x := hi x]) [0..<N1 div 2] buf"
  shows "buf_inv N1 B \<and> copy_back N1 B data = lowhigh_out N1 lo hi"
proof -
  have B: "B = lowhigh_out N1 lo hi"
    unfolding assms(3) by (rule lowhigh_fold_out [OF assms(1)])
  have "buf_inv N1 B"
    unfolding B by (simp add: buf_inv_def lowhigh_out_nth_last)
  moreover have "copy_back N1 B data = B"
    by (rule copy_back_all) (simp_all add: assms(2) B)
  ultimately show ?thesis using B by simp
qed

lemma haar_step_eq:
  "haar_step N1 data =
     (\<lambda>x b. (b[x := data ! (2 * x) + data ! (2 * x + 1)])
              [N1 div 2 + x := data ! (2 * x + 1) - data ! (2 * x)])"
  by (simp add: haar_step_def fun_eq_iff Let_def)

lemma haar_row_out:
  assumes "buf_inv N1 buf" "length data = N1"
  shows "buf_inv N1 (fst (haar_row N1 (buf, data))) \<and>
         snd (haar_row N1 (buf, data)) = haar_out N1 data"
  using lowhigh_row [OF assms refl,
      of "\<lambda>x. data ! (2 * x) + data ! (2 * x + 1)" "\<lambda>x. data ! (2 * x + 1) - data ! (2 * x)"]
  by (simp add: haar_row_def haar_step_eq haar_out_def Let_def)

lemma haar_eq:
  assumes "wf_array N0 N1 rows"
  shows "haar N0 N1 rows = map (haar_out N1) rows"
  unfolding haar_def
  by (rule rows_loop_map [where P = "buf_inv N1"])
     (use assms in \<open>auto simp: buf_inv_replicate wf_array_def haar_row_out\<close>)


lemma ihaar_fold_length [simp]:
  "length (fold (ihaar_step half N1 data) [0..<m] buf) = length buf"
  by (induction m) (simp_all add: ihaar_step_def Let_def)

lemma ihaar_fold_nth:
  assumes "length buf = N1" "m \<le> N1 div 2" "i < N1"
  shows "fold (ihaar_step half N1 data) [0..<m] buf ! i =
           (if i < 2 * m
            then (if even i then half (data ! (i div 2) - data ! (N1 div 2 + i div 2))
                  else half (data ! (i div 2) + data ! (N1 div 2 + i div 2)))
            else buf ! i)"
  using assms(2)
proof (induction m)
  case 0
  show ?case by simp
next
  case (Suc m)
  let ?B = "fold (ihaar_step half N1 data) [0..<m] buf"
  have len: "length ?B = N1" using assms(1) by simp
  have IH: "?B ! i =
           (if i < 2 * m
            then (if even i then half (data ! (i div 2) - data ! (N1 div 2 + i div 2))
                  else half (data ! (i div 2) + data ! (N1 div 2 + i div 2)))
            else buf ! i)"
    using Suc by simp
  have step: "fold (ihaar_step half N1 data) [0..<Suc m] buf ! i =
        (if i = 2 * m + 1 then half (data ! m + data ! (N1 div 2 + m))
         else if i = 2 * m then half (data ! m - data ! (N1 div 2 + m)) else ?B ! i)"
    using assms(3) len by (simp add: ihaar_step_def Let_def nth_list_update)
  consider "i = 2 * m" | "i = 2 * m + 1" | "i < 2 * m" | "2 * m + 1 < i" by linarith
  then show ?case
  proof cases
    case 1
    then show ?thesis unfolding step by simp
  next
    case 2
    then show ?thesis unfolding step by simp
  next
    case 3
    then show ?thesis unfolding step IH by simp
  next
    case 4
    then show ?thesis unfolding step IH by simp
  qed
qed

lemma ihaar_out_length [simp]: "length (ihaar_out half N1 d) = N1"
  by (simp add: ihaar_out_def)

lemma ihaar_out_nth_last: "odd N1 \<Longrightarrow> ihaar_out half N1 data ! (N1 - Suc 0) = 0"
proof -
  assume "odd N1"
  then have "N1 - Suc 0 < N1" "\<not> N1 - Suc 0 < 2 * (N1 div 2)"
    by presburger+
  then show ?thesis by (simp add: ihaar_out_def)
qed

lemma ihaar_row_out:
  assumes "buf_inv N1 buf" "length data = N1"
  shows "buf_inv N1 (fst (ihaar_row half N1 (buf, data))) \<and>
         snd (ihaar_row half N1 (buf, data)) = ihaar_out half N1 data"
proof -
  let ?B = "fold (ihaar_step half N1 data) [0..<N1 div 2] buf"
  from assms have len: "length buf = N1" by (simp add: buf_inv_def)
  have nth: "?B ! i = ihaar_out half N1 data ! i" if "i < N1" for i
  proof -
    note fn = ihaar_fold_nth [OF len le_refl that, of half data]
    have "i < 2 * (N1 div 2) \<or> (odd N1 \<and> i = N1 - 1)"
      using that by presburger
    then consider "i < 2 * (N1 div 2)" | "\<not> i < 2 * (N1 div 2)" "odd N1" "i = N1 - 1"
      by blast
    then show ?thesis
    proof cases
      case 1
      then show ?thesis unfolding fn using that by (simp add: ihaar_out_def)
    next
      case 2
      then show ?thesis
        unfolding fn using assms(1) by (simp add: buf_inv_def ihaar_out_nth_last)
    qed
  qed
  have B: "?B = ihaar_out half N1 data"
    by (rule nth_equalityI) (simp_all add: len nth)
  have "buf_inv N1 ?B"
    unfolding B by (simp add: buf_inv_def ihaar_out_nth_last)
  moreover have "copy_back N1 ?B data = ?B"
    by (rule copy_back_all) (simp_all add: assms len)
  ultimately show ?thesis by (simp add: ihaar_row_def Let_def B)
qed

lemma ihaar_eq:
  assumes "wf_array N0 N1 rows"
  shows "ihaar half N0 N1 rows = map (ihaar_out half N1) rows"
  unfolding ihaar_def
  by (rule rows_loop_map [where P = "buf_inv N1"])
     (use assms in \<open>auto simp: buf_inv_replicate wf_array_def ihaar_row_out\<close>)

lemma haar_out_length [simp]: "length (haar_out N1 d) = N1"
  by (simp add: haar_out_def)

lemma haar_out_nth_low:
  "i < N1 div 2 \<Longrightarrow> haar_out N1 d ! i = d ! (2 * i) + d ! Suc (2 * i)"
  by (simp add: haar_out_def lowhigh_out_nth_low)

lemma haar_out_nth_high:
  "i < N1 div 2 \<Longrightarrow> haar_out N1 d ! (N1 div 2 + i) = d ! Suc (2 * i) - d ! (2 * i)"
  by (simp add: haar_out_def lowhigh_out_nth_high)

lemma ihaar_out_nth_even:
  "i < N1 div 2 \<Longrightarrow> ihaar_out half N1 d ! (2 * i) = half (d ! i - d ! (N1 div 2 + i))"
  by (simp add: ihaar_out_def)

lemma ihaar_out_nth_odd:
  "i < N1 div 2 \<Longrightarrow> ihaar_out half N1 d ! Suc (2 * i) = half (d ! i + d ! (N1 div 2 + i))"
  by (simp add: ihaar_out_def)

lemma wf_array_map:
  "wf_array N0 N1 rows \<Longrightarrow> (\<And>r. length (g r) = N1) \<Longrightarrow> wf_array N0 N1 (map g rows)"
  by (simp add: wf_array_def)

section \<open>Haar: forward and inverse undo each other\<close>

lemma haar_ihaar_row:
  fixes d :: "'a::field_char_0 list"
  assumes "even N1" "length d = N1"
  shows "haar_out N1 (ihaar_out (\<lambda>v. v / 2) N1 d) = d"
proof (rule nth_equalityI)
  show "length (haar_out N1 (ihaar_out (\<lambda>v. v / 2) N1 d)) = length d"
    using assms by simp
next
  fix i
  assume "i < length (haar_out N1 (ihaar_out (\<lambda>v. v / 2) N1 d))"
  then have i: "i < N1" by simp
  show "haar_out N1 (ihaar_out (\<lambda>v. v / 2) N1 d) ! i = d ! i"
  proof (cases "i < N1 div 2")
    case True
    have "(d ! i - d ! (N1 div 2 + i)) / 2 + (d ! i + d ! (N1 div 2 + i)) / 2 = d ! i"
      by (simp add: field_simps)
    with True show ?thesis
      by (simp add: haar_out_nth_low ihaar_out_nth_even ihaar_out_nth_odd)
  next
    case False
    define j where "j = i - N1 div 2"
    have j: "j < N1 div 2" "i = N1 div 2 + j"
      using False i assms(1) unfolding j_def by presburger+
    have "(d ! j + d ! (N1 div 2 + j)) / 2 - (d ! j - d ! (N1 div 2 + j)) / 2
          = d ! (N1 div 2 + j)"
      by (simp add: field_simps)
    then show ?thesis unfolding j(2) using j(1)
      by (simp add: haar_out_nth_high ihaar_out_nth_even ihaar_out_nth_odd)
  qed
qed

lemma ihaar_haar_row:
  fixes d :: "'a::field_char_0 list"
  assumes "even N1" "length d = N1"
  shows "ihaar_out (\<lambda>v. v / 2) N1 (haar_out N1 d) = d"
proof (rule nth_equalityI)
  show "length (ihaar_out (\<lambda>v. v / 2) N1 (haar_out N1 d)) = length d"
    using assms by simp
next
  fix i
  assume "i < length (ihaar_out (\<lambda>v. v / 2) N1 (haar_out N1 d))"
  then have i: "i < N1" by simp
  define j where "j = i div 2"
  have j: "j < N1 div 2" using i assms(1) unfolding j_def by presburger
  show "ihaar_out (\<lambda>v. v / 2) N1 (haar_out N1 d) ! i = d ! i"
  proof (cases "even i")
    case True
    then have "i = 2 * j" unfolding j_def by presburger
    then show ?thesis using j
      by (simp add: haar_out_nth_high haar_out_nth_low ihaar_out_nth_even)
  next
    case False
    then have "i = Suc (2 * j)" unfolding j_def by presburger
    then show ?thesis using j
      by (simp add: haar_out_nth_high haar_out_nth_low ihaar_out_nth_odd)
  qed
qed

text \<open>
  The division matters: with an integer element type \<^verbatim>\<open>ihaar\<close> truncates, and the
  inverse followed by the forward transform no longer gives the row back.
\<close>

lemma haar_ihaar_integer_row:
  "haar 1 2 (ihaar (\<lambda>v. v sdiv 2) 1 2 [[1, 0 :: int]]) = [[0, 0]]"
  by code_simp

text \<open>
  C4.  For every 2-D array \<open>A\<close> with even row length, \<open>haar (ihaar A) = A\<close> and
  \<open>ihaar (haar A) = A\<close>: the dedicated Haar forward and inverse row transforms are
  mutually inverse.  The element type is an exact field of characteristic 0, so the
  floating tolerance of the claim is zero here.
\<close>

theorem haar_ihaar_roundtrip:
  fixes A :: "'a::field_char_0 list list"
  assumes "wf_array N0 N1 A" "even N1"
  shows "haar N0 N1 (ihaar (\<lambda>v. v / 2) N0 N1 A) = A \<and>
         ihaar (\<lambda>v. v / 2) N0 N1 (haar N0 N1 A) = A"
proof -
  have 1: "wf_array N0 N1 (map (ihaar_out (\<lambda>v. v / 2) N1) A)"
    using assms(1) by (rule wf_array_map) simp
  have 2: "wf_array N0 N1 (map (haar_out N1) A)"
    using assms(1) by (rule wf_array_map) simp
  have "map (haar_out N1 \<circ> ihaar_out (\<lambda>v. v / 2) N1) A = A"
    using assms by (intro map_idI) (simp add: wf_array_def haar_ihaar_row)
  moreover have "map (ihaar_out (\<lambda>v. v / 2) N1 \<circ> haar_out N1) A = A"
    using assms by (intro map_idI) (simp add: wf_array_def ihaar_haar_row)
  ultimately show ?thesis
    by (simp add: ihaar_eq [OF assms(1)] haar_eq [OF assms(1)] haar_eq [OF 1] ihaar_eq [OF 2])
qed

theorem haar_ihaar_roundtrip_witness:
  "wf_array 2 4 [[1, 2, 3, 4], [5, 6, 7, 9 :: rat]] \<and> even (4 :: nat) \<and>
   haar 2 4 (ihaar (\<lambda>v. v / 2) 2 4 [[1, 2, 3, 4], [5, 6, 7, 9 :: rat]])
     = [[1, 2, 3, 4], [5, 6, 7, 9]] \<and>
   ihaar (\<lambda>v. v / 2) 2 4 (haar 2 4 [[1, 2, 3, 4], [5, 6, 7, 9 :: rat]])
     = [[1, 2, 3, 4], [5, 6, 7, 9]]"
  using haar_ihaar_roundtrip [of 2 4 "[[1, 2, 3, 4], [5, 6, 7, 9 :: rat]]"]
  by (simp add: wf_array_def)

lemma wavelet_taps_fold:
  "fold (wavelet_tap coeffs ncoeffs N1 data x) [0..<m] (0, 0, True) =
     ((\<Sum>ci<m. coeffs ! (ncoeffs - ci - 1) * access data N1 (2 * int x + int ci)),
      (\<Sum>ci<m. (if even ci then - 1 else 1) * coeffs ! ci
                       * access data N1 (2 * int x + int ci)),
      even m)"
  by (induction m) (simp_all add: wavelet_tap_def Let_def)

lemma wavelet_step_eq:
  "wavelet_step coeffs ncoeffs N1 data =
     (\<lambda>x b. (b[x := wavelet_low coeffs ncoeffs N1 data x])
              [N1 div 2 + x := wavelet_high coeffs ncoeffs N1 data x])"
  by (simp add: wavelet_step_def fun_eq_iff wavelet_taps_fold wavelet_low_def wavelet_high_def)

lemma wavelet_row_out:
  assumes "buf_inv N1 buf" "length data = N1"
  shows "buf_inv N1 (fst (wavelet_row coeffs ncoeffs N1 (buf, data))) \<and>
         snd (wavelet_row coeffs ncoeffs N1 (buf, data)) = wavelet_out coeffs ncoeffs N1 data"
  using lowhigh_row [OF assms refl,
      of "wavelet_low coeffs ncoeffs N1 data" "wavelet_high coeffs ncoeffs N1 data"]
  by (simp add: wavelet_row_def wavelet_step_eq wavelet_out_def Let_def)

lemma wavelet_eq:
  assumes "wf_array N0 N1 rows"
  shows "wavelet coeffs ncoeffs N0 N1 rows = map (wavelet_out coeffs ncoeffs N1) rows"
  unfolding wavelet_def
  by (rule rows_loop_map [where P = "buf_inv N1"])
     (use assms in \<open>auto simp: buf_inv_replicate wf_array_def wavelet_row_out\<close>)

lemma is_even_iff: "is_even x = even x"
  by (simp add: is_even_def and_one_eq mod2_eq_if)

lemma iwavelet_taps_fold:
  "fold (iwavelet_tap coeffs ncoeffs N1 data x) [0..<m] (0, 0) =
     ((\<Sum>ci<m. if odd (int x + int ci - int ncoeffs + 2)
         then coeffs ! ci * access data (N1 div 2) ((int x + int ci - int ncoeffs + 2) sdiv 2)
         else 0),
      (\<Sum>ci<m. if odd (int x + int ci - int ncoeffs + 2)
         then (if even ci then 1 else - 1) * coeffs ! (ncoeffs - ci - 1)
              * access (drop (N1 div 2) data) (N1 div 2)
                  ((int x + int ci - int ncoeffs + 2) sdiv 2)
         else 0))"
  by (induction m) (simp_all add: iwavelet_tap_def Let_def is_even_iff)

lemma iwavelet_step_eq:
  "iwavelet_step coeffs ncoeffs N1 data =
     (\<lambda>x b. b[x := (iwavelet_l coeffs ncoeffs N1 data x + iwavelet_h coeffs ncoeffs N1 data x) / 2])"
  by (simp add: iwavelet_step_def fun_eq_iff iwavelet_taps_fold iwavelet_l_def iwavelet_h_def)

lemma fill_fold_length [simp]: "length (fold (\<lambda>x b. b[x := f x]) [0..<m] buf) = length buf"
  by (induction m) simp_all

lemma fill_fold_nth:
  "i < length buf \<Longrightarrow>
   fold (\<lambda>x b. b[x := f x]) [0..<m] buf ! i = (if i < m then f i else buf ! i)"
  by (induction m) (auto simp: nth_list_update less_Suc_eq)

lemma fill_fold_all:
  "length buf = n \<Longrightarrow> fold (\<lambda>x b. b[x := f x]) [0..<n] buf = map f [0..<n]"
  by (rule nth_equalityI) (simp_all add: fill_fold_nth)

lemma iwavelet_row_out:
  assumes "length buf = N1" "length data = N1"
  shows "length (fst (iwavelet_row coeffs ncoeffs N1 (buf, data))) = N1 \<and>
         snd (iwavelet_row coeffs ncoeffs N1 (buf, data)) = iwavelet_out coeffs ncoeffs N1 data"
proof -
  let ?B = "fold (iwavelet_step coeffs ncoeffs N1 data) [0..<N1] buf"
  have B: "?B = iwavelet_out coeffs ncoeffs N1 data"
    unfolding iwavelet_step_eq iwavelet_out_def by (rule fill_fold_all [OF assms(1)])
  have "copy_back N1 ?B data = ?B"
    by (rule copy_back_all) (simp_all add: assms B iwavelet_out_def)
  then show ?thesis by (simp add: iwavelet_row_def Let_def B iwavelet_out_def)
qed

lemma iwavelet_eq:
  assumes "wf_array N0 N1 rows"
  shows "iwavelet coeffs ncoeffs N0 N1 rows = map (iwavelet_out coeffs ncoeffs N1) rows"
  unfolding iwavelet_def
  by (rule rows_loop_map [where P = "\<lambda>b. length b = N1"])
     (use assms in \<open>auto simp: wf_array_def iwavelet_row_out\<close>)

section \<open>The forward wavelet sums\<close>

lemma wavelet_out_length [simp]: "length (wavelet_out coeffs ncoeffs N1 data) = N1"
  by (simp add: wavelet_out_def)

lemma iwavelet_out_length [simp]: "length (iwavelet_out coeffs ncoeffs N1 data) = N1"
  by (simp add: iwavelet_out_def)

lemma wavelet_out_nth_low:
  "x < N1 div 2 \<Longrightarrow> wavelet_out coeffs ncoeffs N1 data ! x = wavelet_low coeffs ncoeffs N1 data x"
  by (simp add: wavelet_out_def lowhigh_out_nth_low)

lemma wavelet_out_nth_high:
  "x < N1 div 2 \<Longrightarrow>
   wavelet_out coeffs ncoeffs N1 data ! (N1 div 2 + x) = wavelet_high coeffs ncoeffs N1 data x"
  by (simp add: wavelet_out_def lowhigh_out_nth_high)

lemma access_nat:
  "access data N (2 * int x + int ci) = (if 2 * x + ci < N then data ! (2 * x + ci) else 0)"
  by (auto simp: access_def nat_add_distrib nat_mult_distrib)

lemma sum_lessThan_4: "(\<Sum>ci<4. f ci) = f 0 + f 1 + f 2 + f (3 :: nat)"
  by (simp add: numeral_eq_Suc lessThan_Suc ac_simps)

text \<open>
  C2, as stated, fails: the claim has the alternating sign of the high-pass sum start
  positive at \<open>ci = 0\<close>; the source starts with \<open>even = true\<close> and takes \<open>-1\<close> for it.
  On the row \<open>[1, 0]\<close> with the coefficients \<open>[1, 1]\<close> the code writes \<open>high[0] = -1\<close>,
  the claimed sum is \<open>+1\<close>.
\<close>

theorem wavelet_high_sign_counterexample:
  "wavelet (D2 :: rat list) 2 1 2 [[1, 0]] ! 0 ! (2 div 2 + 0) = - 1 \<and>
   claimed_high (D2 :: rat list) 2 2 [1, 0] 0 = 1"
proof -
  have "wavelet (D2 :: rat list) 2 1 2 [[1, 0]] ! 0 ! (2 div 2 + 0) = - 1"
    by code_simp
  moreover have "claimed_high (D2 :: rat list) 2 2 [1, 0] 0 = 1"
    by (simp add: claimed_high_def claimed_sample_def D2_def lessThan_Suc numeral_2_eq_2)
  ultimately show ?thesis by simp
qed

text \<open>
  C2, amended.  For every well-formed 2-D array, every row \<open>y\<close>, every \<open>x < N1 div 2\<close>
  and every coefficient vector, the forward wavelet transform writes
  \<open>low[x] = \<Sum>ci. coeffs[ncoeffs-ci-1] * sample(2x+ci)\<close> and
  \<open>high[x] = \<Sum>ci. (-1)^(ci+1) * coeffs[ci] * sample(2x+ci)\<close>: the alternating sign
  starts negative at \<open>ci = 0\<close>; a sample index at or after \<open>N1\<close> contributes zero to
  both sums (no index is below 0).
\<close>

theorem wavelet_row_sums:
  assumes "wf_array N0 N1 rows" "y < N0" "x < N1 div 2"
  shows "wavelet coeffs ncoeffs N0 N1 rows ! y ! x =
           (\<Sum>ci<ncoeffs. if 2 * x + ci < N1
                then coeffs ! (ncoeffs - ci - 1) * rows ! y ! (2 * x + ci) else 0) \<and>
         wavelet coeffs ncoeffs N0 N1 rows ! y ! (N1 div 2 + x) =
           (\<Sum>ci<ncoeffs. if 2 * x + ci < N1
                then (- 1) ^ (ci + 1) * coeffs ! ci * rows ! y ! (2 * x + ci) else 0)"
proof -
  have y: "y < length rows" using assms by (simp add: wf_array_def)
  have sgn: "(if even ci then - 1 else 1) = ((- 1) ^ (ci + 1) :: 'a)" for ci
    by simp
  have "wavelet_low coeffs ncoeffs N1 (rows ! y) x =
        (\<Sum>ci<ncoeffs. if 2 * x + ci < N1
                then coeffs ! (ncoeffs - ci - 1) * rows ! y ! (2 * x + ci) else 0)"
    unfolding wavelet_low_def access_nat by (rule sum.cong) auto
  moreover have "wavelet_high coeffs ncoeffs N1 (rows ! y) x =
        (\<Sum>ci<ncoeffs. if 2 * x + ci < N1
                then (- 1) ^ (ci + 1) * coeffs ! ci * rows ! y ! (2 * x + ci) else 0)"
    unfolding wavelet_high_def access_nat sgn by (rule sum.cong) auto
  ultimately show ?thesis
    using y assms(3)
    by (simp add: wavelet_eq [OF assms(1)] wavelet_out_nth_low wavelet_out_nth_high)
qed

theorem wavelet_row_sums_witness:
  "wf_array 1 4 [[1, 2, 3, 4 :: rat]] \<and> (0 :: nat) < 1 \<and> (1 :: nat) < 4 div 2 \<and>
   wavelet D4 4 1 4 [[1, 2, 3, 4 :: rat]] ! 0 ! 1 = 3 * D4 ! 3 + 4 * D4 ! 2 \<and>
   wavelet D4 4 1 4 [[1, 2, 3, 4 :: rat]] ! 0 ! (4 div 2 + 1) = 4 * D4 ! 1 - 3 * D4 ! 0"
proof -
  have h1: "wf_array 1 4 [[1, 2, 3, 4 :: rat]]" by (simp add: wf_array_def)
  have h2: "(0 :: nat) < 1" by simp
  have h3: "(1 :: nat) < 4 div 2" by simp
  show ?thesis
    using wavelet_row_sums [OF h1 h2 h3, of D4 4] h1
    by (simp add: sum_lessThan_4)
qed

section \<open>Rows of odd length\<close>

lemma lowhigh_out_cong:
  assumes "\<And>x. x < N1 div 2 \<Longrightarrow> lo x = lo' x" "\<And>x. x < N1 div 2 \<Longrightarrow> hi x = hi' x"
  shows "lowhigh_out N1 lo hi = lowhigh_out N1 lo' hi'"
proof -
  have "i - N1 div 2 < N1 div 2" if "\<not> i < N1 div 2" "i < 2 * (N1 div 2)" for i
    using that by linarith
  then show ?thesis
    unfolding lowhigh_out_def using assms by (intro map_cong refl) simp
qed

lemma haar_out_upd_last:
  assumes "odd N1"
  shows "haar_out N1 (r[N1 - Suc 0 := v]) = haar_out N1 r"
  unfolding haar_out_def
proof (rule lowhigh_out_cong)
  fix x
  assume "x < N1 div 2"
  then have "2 * x \<noteq> N1 - Suc 0" "2 * x + 1 \<noteq> N1 - Suc 0"
    using assms by presburger+
  then have *: "r[N1 - Suc 0 := v] ! (2 * x) = r ! (2 * x)"
    "r[N1 - Suc 0 := v] ! (2 * x + 1) = r ! (2 * x + 1)"
    by simp_all
  show "r[N1 - Suc 0 := v] ! (2 * x) + r[N1 - Suc 0 := v] ! (2 * x + 1)
        = r ! (2 * x) + r ! (2 * x + 1)"
    unfolding * ..
  show "r[N1 - Suc 0 := v] ! (2 * x + 1) - r[N1 - Suc 0 := v] ! (2 * x)
        = r ! (2 * x + 1) - r ! (2 * x)"
    unfolding * ..
qed

lemma wavelet_out_upd_last:
  assumes "odd N1" "ncoeffs \<le> 2"
  shows "wavelet_out coeffs ncoeffs N1 (r[N1 - Suc 0 := v]) = wavelet_out coeffs ncoeffs N1 r"
  unfolding wavelet_out_def
proof (rule lowhigh_out_cong)
  fix x
  assume x: "x < N1 div 2"
  have acc: "access (r[N1 - Suc 0 := v]) N1 (2 * int x + int ci)
             = access r N1 (2 * int x + int ci)"
    if "ci < ncoeffs" for ci
  proof -
    have "ci < 2" using that assms(2) by simp
    then have "2 * x + ci \<noteq> N1 - Suc 0" using x assms(1) by presburger
    then show ?thesis unfolding access_nat by simp
  qed
  show "wavelet_low coeffs ncoeffs N1 (r[N1 - Suc 0 := v]) x = wavelet_low coeffs ncoeffs N1 r x"
    unfolding wavelet_low_def by (rule sum.cong) (simp_all add: acc)
  show "wavelet_high coeffs ncoeffs N1 (r[N1 - Suc 0 := v]) x = wavelet_high coeffs ncoeffs N1 r x"
    unfolding wavelet_high_def by (rule sum.cong) (simp_all add: acc)
qed

lemma wf_array_upd: "wf_array N0 N1 rows \<Longrightarrow> wf_array N0 N1 (map (\<lambda>r. r[i := v]) rows)"
  by (simp add: wf_array_def)

text \<open>
  C10, as stated, fails in its explanation: in \<^verbatim>\<open>wavelet\<close> with more than two
  coefficients the last sample of an odd row does take part in the sums (tap
  \<open>2x + ci = N1 - 1\<close> is in range).  With the \<open>D4\<close> table and \<open>N1 = 3\<close>, the rows
  \<open>[0, 0, 1]\<close> and \<open>[0, 0, 0]\<close> differ in the last sample only and get different
  \<open>low[0]\<close>.
\<close>

theorem wavelet_last_sample_counterexample:
  "wavelet (D4 :: rat list) 4 1 3 [[0, 0, 1]] ! 0 ! 0 = 11830127 / 10 ^ 7 \<and>
   wavelet (D4 :: rat list) 4 1 3 [[0, 0, 0]] ! 0 ! 0 = 0"
proof -
  have wf: "wf_array 1 3 [[0, 0, 1 :: rat]]" "wf_array 1 3 [[0, 0, 0 :: rat]]"
    by (simp_all add: wf_array_def)
  have x: "(0 :: nat) < 3 div 2" by simp
  have "wavelet (D4 :: rat list) 4 1 3 [[0, 0, 1]] ! 0 ! 0 = 11830127 / 10 ^ 7"
    unfolding wavelet_eq [OF wf(1)]
    by (simp add: wavelet_out_nth_low [OF x] wavelet_low_def sum_lessThan_4 access_def D4_def)
  moreover have "wavelet (D4 :: rat list) 4 1 3 [[0, 0, 0]] ! 0 ! 0 = 0"
    unfolding wavelet_eq [OF wf(2)]
    by (simp add: wavelet_out_nth_low [OF x] wavelet_low_def sum_lessThan_4 access_def D4_def)
  ultimately show ?thesis by simp
qed

text \<open>
  C10, amended.  For every 2-D array whose row length \<open>N1\<close> is odd, the forward
  \<^verbatim>\<open>haar\<close> and \<^verbatim>\<open>wavelet\<close> row transforms write zero into the last element of
  every row: the final scratch-buffer slot is never written, stays \<open>T()\<close> and is copied
  back over the row's last element.  In \<^verbatim>\<open>haar\<close>, and in \<^verbatim>\<open>wavelet\<close> when
  \<open>ncoeffs \<le> 2\<close>, only the first \<open>N1 - 1\<close> samples participate: changing the last
  sample of every row changes nothing in the result.
\<close>

theorem odd_row_forward:
  fixes A :: "'a::ab_group_add list list" and W :: "'b::field list list"
  assumes "wf_array N0 N1 A" "wf_array N0 N1 W" "odd N1"
  shows "(\<forall>y<N0. haar N0 N1 A ! y ! (N1 - 1) = 0) \<and>
         (\<forall>y<N0. wavelet coeffs ncoeffs N0 N1 W ! y ! (N1 - 1) = 0) \<and>
         haar N0 N1 (map (\<lambda>r. r[N1 - 1 := v]) A) = haar N0 N1 A \<and>
         (ncoeffs \<le> 2 \<longrightarrow>
            wavelet coeffs ncoeffs N0 N1 (map (\<lambda>r. r[N1 - 1 := w]) W)
              = wavelet coeffs ncoeffs N0 N1 W)"
proof -
  have lenA: "length A = N0" and lenW: "length W = N0"
    using assms by (simp_all add: wf_array_def)
  have 1: "\<forall>y<N0. haar N0 N1 A ! y ! (N1 - 1) = 0"
    using assms(3) lenA
    by (simp add: haar_eq [OF assms(1)] haar_out_def lowhigh_out_nth_last)
  have 2: "\<forall>y<N0. wavelet coeffs ncoeffs N0 N1 W ! y ! (N1 - 1) = 0"
    using assms(3) lenW
    by (simp add: wavelet_eq [OF assms(2)] wavelet_out_def lowhigh_out_nth_last)
  have 3: "haar N0 N1 (map (\<lambda>r. r[N1 - 1 := v]) A) = haar N0 N1 A"
    by (simp add: haar_eq [OF assms(1)] haar_eq [OF wf_array_upd [OF assms(1)]]
        haar_out_upd_last [OF assms(3)])
  have 4: "wavelet coeffs ncoeffs N0 N1 (map (\<lambda>r. r[N1 - 1 := w]) W)
              = wavelet coeffs ncoeffs N0 N1 W" if "ncoeffs \<le> 2"
    by (simp add: wavelet_eq [OF assms(2)] wavelet_eq [OF wf_array_upd [OF assms(2)]]
        wavelet_out_upd_last [OF assms(3) that])
  from 1 2 3 4 show ?thesis by blast
qed

theorem odd_row_forward_witness:
  "wf_array 1 3 [[1, 2, 3 :: int]] \<and> wf_array 1 3 [[1, 2, 3 :: rat]] \<and> odd (3 :: nat) \<and>
   haar 1 3 [[1, 2, 3 :: int]] ! 0 ! (3 - 1) = 0 \<and>
   wavelet D2 2 1 3 [[1, 2, 3 :: rat]] ! 0 ! (3 - 1) = 0 \<and>
   haar 1 3 (map (\<lambda>r. r[3 - 1 := 7]) [[1, 2, 3 :: int]]) = haar 1 3 [[1, 2, 3]] \<and>
   (2 :: nat) \<le> 2 \<and>
   wavelet D2 2 1 3 (map (\<lambda>r. r[3 - 1 := 7]) [[1, 2, 3 :: rat]]) = wavelet D2 2 1 3 [[1, 2, 3]]"
proof -
  have h1: "wf_array 1 3 [[1, 2, 3 :: int]]" by (simp add: wf_array_def)
  have h2: "wf_array 1 3 [[1, 2, 3 :: rat]]" by (simp add: wf_array_def)
  have h3: "odd (3 :: nat)" by simp
  have h4: "(2 :: nat) \<le> 2" by simp
  have y: "(0 :: nat) < 1" by simp
  note t = odd_row_forward [OF h1 h2 h3, of D2 2 7 7]
  from t y have a: "haar 1 3 [[1, 2, 3 :: int]] ! 0 ! (3 - 1) = 0" by blast
  from t y have b: "wavelet D2 2 1 3 [[1, 2, 3 :: rat]] ! 0 ! (3 - 1) = 0" by blast
  from t have c: "haar 1 3 (map (\<lambda>r. r[3 - 1 := 7]) [[1, 2, 3 :: int]]) = haar 1 3 [[1, 2, 3]]"
    by blast
  from t h4 have d: "wavelet D2 2 1 3 (map (\<lambda>r. r[3 - 1 := 7]) [[1, 2, 3 :: rat]])
      = wavelet D2 2 1 3 [[1, 2, 3]]"
    by blast
  from h1 h2 h3 h4 a b c d show ?thesis by blast
qed

section \<open>Entry points: order codes and ranks\<close>

lemma dcoeffs_None: "code < 0 \<or> 9 < code \<Longrightarrow> dcoeffs code = None"
  by (auto simp: dcoeffs_def)

text \<open>
  C9.  For every call to \<^verbatim>\<open>daubechies\<close> or \<^verbatim>\<open>idaubechies\<close> with an order code outside
  \<open>0..9\<close>, the call fails with the error \<^verbatim>\<open>dcoeffs\<close> sets (a \<^verbatim>\<open>RuntimeError\<close> carrying
  \<open>TypeErrorMsg\<close>) and the input array is not mutated: whatever the array object and
  whatever element types the dispatch macro handles, it is returned as it was.
\<close>

theorem daubechies_bad_code:
  assumes "code < 0 \<or> 9 < code"
  shows "py_daubechies handles array code = (Inl (RuntimeError TypeErrorMsg), array) \<and>
         py_idaubechies handles array code = (Inl (RuntimeError TypeErrorMsg), array)"
  by (simp add: py_daubechies_def py_idaubechies_def dcoeffs_None [OF assms])

theorem daubechies_bad_code_witness:
  "((10 :: int) < 0 \<or> 9 < (10 :: int)) \<and>
   py_daubechies (\<lambda>t. t = Floating) \<lparr>is_array = True, typenum = Floating, dims = [1, 2],
       contents = [[1, 2 :: rat]]\<rparr> 10
     = (Inl (RuntimeError TypeErrorMsg),
        \<lparr>is_array = True, typenum = Floating, dims = [1, 2], contents = [[1, 2]]\<rparr>) \<and>
   py_idaubechies (\<lambda>t. t = Floating) \<lparr>is_array = True, typenum = Floating, dims = [1, 2],
       contents = [[1, 2 :: rat]]\<rparr> 10
     = (Inl (RuntimeError TypeErrorMsg),
        \<lparr>is_array = True, typenum = Floating, dims = [1, 2], contents = [[1, 2]]\<rparr>)"
proof -
  have h: "(10 :: int) < 0 \<or> 9 < (10 :: int)" by simp
  from daubechies_bad_code [OF h] h show ?thesis by blast
qed

text \<open>
  C5.  For every call to \<^verbatim>\<open>rank_filter\<close> with \<open>rank < 0\<close> or \<open>rank \<ge> N2\<close>, the
  operation returns (it has no error path) without writing any element of the output
  array: the output's pre-existing contents are left unchanged.
\<close>

theorem rank_filter_invalid_rank:
  assumes "rank < 0 \<or> int N2 \<le> rank"
  shows "rank_filter sel retrieve N N2 rank nb0 res = res"
  using assms by (auto simp: rank_filter_def)

theorem rank_filter_invalid_rank_witness:
  "((3 :: int) < 0 \<or> int 3 \<le> 3) \<and>
   rank_filter (\<lambda>k. sort) (retrieve_1d [1, 2, 3 :: int] 3) 3 3 3 [0, 0, 0] [7, 8, 9] = [7, 8, 9]"
proof -
  have h: "(3 :: int) < 0 \<or> int 3 \<le> 3" by simp
  from rank_filter_invalid_rank [OF h] h show ?thesis by blast
qed

section \<open>Convolution and template matching\<close>

lemma convolve_taps_fold:
  "fold (convolve_tap to_double retrieve weight i) [0..<m] c =
     c + (\<Sum>j<m. case retrieve i j of
                    Some val \<Rightarrow> to_double val * to_double (weight j)
                  | None \<Rightarrow> 0)"
  by (induction m) (simp_all add: convolve_tap_def split: option.split)

text \<open>
  C7.  For every primary position \<open>i\<close>, \<^verbatim>\<open>convolve\<close> accumulates the sum over the
  valid taps \<open>j\<close> of \<open>weight(j) * value(j)\<close> in double precision whatever the element
  type \<open>T\<close> is, and casts back to \<open>T\<close> only when storing: the stored element is
  \<open>of_double\<close> of the sum of the \<open>to_double\<close> images, so no intermediate sum is ever a
  value of \<open>T\<close>.  (The \<^verbatim>\<open>double\<close> accumulator is read as an exact real.)
\<close>

theorem convolve_double_sum:
  assumes "i < N" "length result = N"
  shows "convolve to_double of_double retrieve weight N N2 result ! i =
           of_double (\<Sum>j<N2. case retrieve i j of
                                 Some val \<Rightarrow> to_double val * to_double (weight j)
                               | None \<Rightarrow> 0)"
  using assms by (simp add: convolve_def fill_fold_nth convolve_taps_fold)

lemma sum_lessThan_3: "(\<Sum>j<3. f j) = f 0 + f 1 + f (2 :: nat)"
  by (simp add: numeral_eq_Suc lessThan_Suc ac_simps)

theorem convolve_double_sum_witness:
  "(0 :: nat) < 5 \<and> length [0, 0, 0, 0, 0 :: int] = 5 \<and>
   convolve real_of_int floor (retrieve_1d [1, 2, 3, 4, 5] 3) (\<lambda>j. 1) 5 3 [0, 0, 0, 0, 0] ! 0
     = 3"
proof -
  have h1: "(0 :: nat) < 5" by simp
  have h2: "length [0, 0, 0, 0, 0 :: int] = 5" by simp
  from convolve_double_sum [OF h1 h2, of real_of_int floor "retrieve_1d [1, 2, 3, 4, 5] 3" "\<lambda>j. 1" 3]
  show ?thesis by (simp add: sum_lessThan_3 retrieve_1d_def)
qed

lemma template_match_taps_fold:
  "fold (template_match_tap retrieve weight i) [0..<m] d =
     d + (\<Sum>j<m. case retrieve i j of
                    Some val \<Rightarrow> delta val (weight j) * delta val (weight j)
                  | None \<Rightarrow> 0)"
  by (induction m) (simp_all add: template_match_tap_def Let_def split: option.split)

lemma template_match_nth:
  assumes "i < N" "length res = N"
  shows "template_match retrieve weight N N2 res ! i =
           (\<Sum>j<N2. case retrieve i j of
                    Some val \<Rightarrow> delta val (weight j) * delta val (weight j)
                  | None \<Rightarrow> 0)"
  using assms by (simp add: template_match_def fill_fold_nth template_match_taps_fold)

lemma uint_delta:
  fixes a b :: "'a::len word"
  shows "uint (delta a b) = \<bar>uint a - uint b\<bar>"
proof (cases "a > b")
  case True
  then have "uint b \<le> uint a" by (simp add: word_less_def)
  moreover from this have "uint (a - b) = uint a - uint b"
    by (rule uint_sub_lem [THEN iffD1])
  ultimately show ?thesis using True by (simp add: delta_def)
next
  case False
  then have le: "a \<le> b" by simp
  then have "uint a \<le> uint b" by (simp add: word_le_def)
  moreover from this have "uint (b - a) = uint b - uint a"
    by (rule uint_sub_lem [THEN iffD1])
  ultimately show ?thesis using False by (simp add: delta_def)
qed

lemma delta_square:
  fixes a b :: "'a::len word"
  shows "delta a b * delta a b = word_of_int ((uint a - uint b)\<^sup>2)"
proof -
  have "delta a b * delta a b = word_of_int (uint (delta a b) * uint (delta a b))"
    by simp
  also have "\<dots> = word_of_int ((uint a - uint b)\<^sup>2)"
    unfolding uint_delta by (simp add: power2_eq_square)
  finally show ?thesis .
qed

text \<open>
  C8.  For every primary position \<open>i\<close>, \<^verbatim>\<open>template_match\<close> writes the sum over the
  valid taps \<open>j\<close> of \<open>(value(j) - tap(j))\<^sup>2\<close>.  The difference is \<open>delta\<close>, computed by
  branching on which operand is larger, so for an unsigned element type it is the
  exact \<open>|a - b|\<close> and never underflows; squares and sum are those of the element type
  itself, so the result is the exact integer sum reduced to the type's width.
\<close>

theorem template_match_unsigned:
  fixes res :: "'a::len word list"
  assumes "i < N" "length res = N"
  shows "template_match retrieve weight N N2 res ! i =
           (\<Sum>j<N2. case retrieve i j of
                      Some val \<Rightarrow> delta val (weight j) * delta val (weight j)
                    | None \<Rightarrow> 0) \<and>
         (\<forall>a b :: 'a word. uint (delta a b) = \<bar>uint a - uint b\<bar>) \<and>
         template_match retrieve weight N N2 res ! i =
           word_of_int (\<Sum>j<N2. case retrieve i j of
                          Some val \<Rightarrow> (uint val - uint (weight j))\<^sup>2
                        | None \<Rightarrow> 0)"
proof -
  have "(case retrieve i j of
           Some val \<Rightarrow> delta val (weight j) * delta val (weight j)
         | None \<Rightarrow> 0) =
        word_of_int (case retrieve i j of
           Some val \<Rightarrow> (uint val - uint (weight j))\<^sup>2
         | None \<Rightarrow> 0)" for j
    by (simp add: delta_square split: option.split)
  then have "template_match retrieve weight N N2 res ! i =
           word_of_int (\<Sum>j<N2. case retrieve i j of
                          Some val \<Rightarrow> (uint val - uint (weight j))\<^sup>2
                        | None \<Rightarrow> 0)"
    unfolding template_match_nth [OF assms] by simp
  then show ?thesis
    using template_match_nth [OF assms, of retrieve weight N2] uint_delta by blast
qed

theorem template_match_unsigned_witness:
  "(2 :: nat) < 5 \<and> length [0, 0, 0, 0, 0 :: 8 word] = 5 \<and>
   template_match (retrieve_1d [1, 2, 30, 4, 5 :: 8 word] 3) (\<lambda>j. 3) 5 3 [0, 0, 0, 0, 0] ! 2
     = 219 \<and>
   (word_of_int ((2 - 3)\<^sup>2 + (30 - 3)\<^sup>2 + (4 - 3)\<^sup>2) :: 8 word) = 219"
proof -
  have h1: "(2 :: nat) < 5" by simp
  have h2: "length [0, 0, 0, 0, 0 :: 8 word] = 5" by simp
  from template_match_unsigned [OF h1 h2, of "retrieve_1d [1, 2, 30, 4, 5 :: 8 word] 3" "\<lambda>j. 3" 3]
  have "template_match (retrieve_1d [1, 2, 30, 4, 5 :: 8 word] 3) (\<lambda>j. 3) 5 3 [0, 0, 0, 0, 0] ! 2 =
           word_of_int (\<Sum>j<3. case retrieve_1d [1, 2, 30, 4, 5 :: 8 word] 3 2 j of
                          Some val \<Rightarrow> (uint val - uint (3 :: 8 word))\<^sup>2
                        | None \<Rightarrow> 0)"
    by blast
  then show ?thesis by (simp add: sum_lessThan_3 retrieve_1d_def)
qed

section \<open>The rank filter at the border\<close>

lemma nth_element_post_sort: "nth_element_post (\<lambda>k. sort)"
  unfolding nth_element_post_def
proof (intro allI conjI impI)
  fix k :: nat and xs :: "'a list" and i
  show "mset (sort xs) = mset xs" by simp
  show "sort xs ! k = sort xs ! k" ..
  assume k: "k < length xs"
  show "i < k \<Longrightarrow> sort xs ! i \<le> sort xs ! k"
    using k by (simp add: sorted_nth_mono)
  show "k < i \<and> i < length xs \<Longrightarrow> sort xs ! k \<le> sort xs ! i"
    by (simp add: sorted_nth_mono)
qed

lemma sel_mset: "nth_element_post sel \<Longrightarrow> mset (sel k xs) = mset xs"
  by (simp add: nth_element_post_def)

lemma sel_length: "nth_element_post sel \<Longrightarrow> length (sel k xs) = length xs"
  by (rule mset_eq_length) (rule sel_mset)

lemma sel_nth: "nth_element_post sel \<Longrightarrow> k < length xs \<Longrightarrow> sel k xs ! k = sort xs ! k"
  by (simp add: nth_element_post_def)

lemma sel_pair:
  assumes "nth_element_post sel" "a \<le> b"
  shows "sel 0 [a, b] = [a, b]"
proof -
  have len: "length (sel 0 [a, b]) = Suc (Suc 0)" using sel_length [OF assms(1)] by simp
  then obtain x y where xy: "sel 0 [a, b] = [x, y]"
    by (auto simp: length_Suc_conv)
  have "sel 0 [a, b] ! 0 = sort [a, b] ! 0"
    by (rule sel_nth [OF assms(1)]) simp
  then have x: "x = a" using assms(2) by (simp add: xy)
  have "mset (sel 0 [a, b]) = mset [a, b]"
    by (rule sel_mset [OF assms(1)])
  then have "y = b" by (simp add: xy x)
  with x xy show ?thesis by simp
qed

lemma sel_triple_mid:
  assumes "nth_element_post sel" "a \<le> b" "b \<le> c"
  shows "\<exists>p q. sel (Suc 0) [a, b, c] = [p, b, q]"
proof -
  have len: "length (sel (Suc 0) [a, b, c]) = Suc (Suc (Suc 0))"
    using sel_length [OF assms(1)] by simp
  then obtain p m q where pmq: "sel (Suc 0) [a, b, c] = [p, m, q]"
    by (auto simp: length_Suc_conv)
  have "sel (Suc 0) [a, b, c] ! Suc 0 = sort [a, b, c] ! Suc 0"
    by (rule sel_nth [OF assms(1)]) simp
  then have "m = b" using assms(2,3) by (simp add: pmq)
  with pmq show ?thesis by blast
qed

text \<open>
  C1.  The claim: at every position the output is the element of the valid tap values
  at the scaled rank.  The code selects at the scaled rank \<open>currank\<close> but then reads
  \<^verbatim>\<open>neighbours[rank]\<close>.  On the array \<open>[1, 2, 3]\<close> with a centred 3-tap filter, rank 1
  (the median) and out-of-range taps not valid, the two border positions have
  \<open>n = 2\<close> and \<open>currank = 0\<close>; whatever the library's \<^verbatim>\<open>nth_element\<close> does within its
  contract, the code writes \<open>[2, 2, 3]\<close> where the claim gives \<open>[1, 2, 2]\<close>.
\<close>

theorem rank_filter_boundary_output:
  assumes "nth_element_post sel" "length nb0 = 3"
  shows "rank_filter sel (retrieve_1d [1, 2, 3 :: int] 3) 3 3 1 nb0 [0, 0, 0] = [2, 2, 3] \<and>
         map (claimed_rank_value (retrieve_1d [1, 2, 3 :: int] 3) 3 1) [0, 1, 2] = [1, 2, 2]"
proof -
  obtain a b c where nb0: "nb0 = [a, b, c]"
    using assms(2) by (auto simp: length_Suc_conv numeral_3_eq_3)
  have s0: "sel 0 [1, 2] = [1, 2 :: int]" by (rule sel_pair [OF assms(1)]) simp
  have s2: "sel 0 [2, 3] = [2, 3 :: int]" by (rule sel_pair [OF assms(1)]) simp
  obtain p q where s1: "sel (Suc 0) [1, 2, 3 :: int] = [p, 2, q]"
    using sel_triple_mid [OF assms(1), of 1 2 3] by auto
  have upt3: "[0..<3] = [0, 1, 2]" by (simp add: upt_rec)
  have code: "rank_filter sel (retrieve_1d [1, 2, 3 :: int] 3) 3 3 1 nb0 [0, 0, 0] = [2, 2, 3]"
    by (simp add: rank_filter_def rank_filter_step_def collect_tap_def retrieve_1d_def
        nth_element_def upt3 nb0 s0 s1 s2 Let_def)
  have claim: "map (claimed_rank_value (retrieve_1d [1, 2, 3 :: int] 3) 3 1) [0, 1, 2] = [1, 2, 2]"
    by (simp add: claimed_rank_value_def retrieve_1d_def upt3 List.map_filter_simps Let_def)
  from code claim show ?thesis by simp
qed

theorem rank_filter_boundary_output_witness:
  "nth_element_post (\<lambda>k. sort :: int list \<Rightarrow> int list) \<and> length [0, 0, 0 :: int] = 3 \<and>
   rank_filter (\<lambda>k. sort) (retrieve_1d [1, 2, 3 :: int] 3) 3 3 1 [0, 0, 0] [0, 0, 0] = [2, 2, 3] \<and>
   map (claimed_rank_value (retrieve_1d [1, 2, 3 :: int] 3) 3 1) [0, 1, 2] = [1, 2, 2]"
proof -
  have h: "length [0, 0, 0 :: int] = 3" by simp
  from rank_filter_boundary_output [OF nth_element_post_sort h] nth_element_post_sort h
  show ?thesis by blast
qed

section \<open>Daubechies: forward after inverse\<close>

lemma pair_regroup:
  fixes F :: "nat \<Rightarrow> nat \<Rightarrow> 'a::comm_semiring_0"
  shows "(\<Sum>ci<n. \<Sum>cj<n. if odd (ci + cj) then F ci cj * G ((ci + cj) div 2) else 0)
         = (\<Sum>e<n. G e * pair_sum n F e)"
proof -
  have inner: "(\<Sum>cj<n. if odd (ci + cj) then F ci cj * G ((ci + cj) div 2) else 0)
        = (\<Sum>e<n. if ci \<le> 2 * e + 1 \<and> 2 * e + 1 - ci < n
                    then G e * F ci (2 * e + 1 - ci) else 0)"
    if "ci < n" for ci
  proof -
    have "(\<Sum>cj<n. if odd (ci + cj) then F ci cj * G ((ci + cj) div 2) else 0)
          = (\<Sum>cj \<in> {cj \<in> {..<n}. odd (ci + cj)}. F ci cj * G ((ci + cj) div 2))"
      by (rule sum.inter_filter [symmetric]) simp
    also have "\<dots> = (\<Sum>e \<in> {e \<in> {..<n}. ci \<le> 2 * e + 1 \<and> 2 * e + 1 - ci < n}.
                          G e * F ci (2 * e + 1 - ci))"
    proof (rule sum.reindex_bij_witness [where i = "\<lambda>e. 2 * e + 1 - ci"
          and j = "\<lambda>cj. (ci + cj) div 2"])
      fix a
      assume a: "a \<in> {cj \<in> {..<n}. odd (ci + cj)}"
      then have "a < n" "odd (ci + a)" by simp_all
      then have e: "2 * ((ci + a) div 2) + 1 = ci + a" by presburger
      show "2 * ((ci + a) div 2) + 1 - ci = a" unfolding e by simp
      have c0: "(ci + a) div 2 < n" using \<open>a < n\<close> that by linarith
      have c1: "ci \<le> 2 * ((ci + a) div 2) + 1" unfolding e by simp
      have c2: "2 * ((ci + a) div 2) + 1 - ci < n" unfolding e using \<open>a < n\<close> by simp
      from c0 c1 c2
      show "(ci + a) div 2 \<in> {e \<in> {..<n}. ci \<le> 2 * e + 1 \<and> 2 * e + 1 - ci < n}"
        by simp
      show "G ((ci + a) div 2) * F ci (2 * ((ci + a) div 2) + 1 - ci)
            = F ci a * G ((ci + a) div 2)"
        unfolding e by (simp add: mult.commute)
    next
      fix b
      assume "b \<in> {e \<in> {..<n}. ci \<le> 2 * e + 1 \<and> 2 * e + 1 - ci < n}"
      then have b: "b < n" "ci \<le> 2 * b + 1" "2 * b + 1 - ci < n" by simp_all
      then have s: "ci + (2 * b + 1 - ci) = 2 * b + 1" by simp
      show "(ci + (2 * b + 1 - ci)) div 2 = b" unfolding s by simp
      show "2 * b + 1 - ci \<in> {cj \<in> {..<n}. odd (ci + cj)}"
        using b unfolding mem_Collect_eq s by simp
    qed
    also have "\<dots> = (\<Sum>e<n. if ci \<le> 2 * e + 1 \<and> 2 * e + 1 - ci < n
                    then G e * F ci (2 * e + 1 - ci) else 0)"
      by (rule sum.inter_filter) simp
    finally show ?thesis .
  qed
  have "(\<Sum>ci<n. \<Sum>cj<n. if odd (ci + cj) then F ci cj * G ((ci + cj) div 2) else 0)
        = (\<Sum>ci<n. \<Sum>e<n. if ci \<le> 2 * e + 1 \<and> 2 * e + 1 - ci < n
                    then G e * F ci (2 * e + 1 - ci) else 0)"
  proof (rule sum.cong [OF refl])
    fix ci
    assume "ci \<in> {..<n}"
    then have "ci < n" by simp
    then show "(\<Sum>cj<n. if odd (ci + cj) then F ci cj * G ((ci + cj) div 2) else 0)
        = (\<Sum>e<n. if ci \<le> 2 * e + 1 \<and> 2 * e + 1 - ci < n
                    then G e * F ci (2 * e + 1 - ci) else 0)"
      by (rule inner)
  qed
  also have "\<dots> = (\<Sum>e<n. \<Sum>ci<n. if ci \<le> 2 * e + 1 \<and> 2 * e + 1 - ci < n
                    then G e * F ci (2 * e + 1 - ci) else 0)"
    by (rule sum.swap)
  also have "\<dots> = (\<Sum>e<n. G e * pair_sum n F e)"
    unfolding pair_sum_def sum_distrib_left
    by (intro sum.cong refl) simp
  finally show ?thesis .
qed

lemma pair_sum_cong:
  assumes "\<And>ci cj. ci < n \<Longrightarrow> cj < n \<Longrightarrow> F ci cj = F' ci cj"
  shows "pair_sum n F e = pair_sum n F' e"
  unfolding pair_sum_def by (intro sum.cong refl) (simp add: assms)

lemma pair_sum_scale:
  fixes F :: "nat \<Rightarrow> nat \<Rightarrow> 'a::linordered_field"
  assumes "\<And>ci cj. ci < n \<Longrightarrow> cj < n \<Longrightarrow> F ci cj = of_int (F' ci cj) / d"
  shows "pair_sum n F e = of_int (pair_sum n F' e) / d"
proof -
  have "pair_sum n F e = pair_sum n (\<lambda>ci cj. of_int (F' ci cj) / d) e"
    by (rule pair_sum_cong) (rule assms)
  also have "\<dots> = of_int (pair_sum n F' e) / d"
    unfolding pair_sum_def of_int_sum sum_divide_distrib
    by (intro sum.cong refl) simp
  finally show ?thesis .
qed

lemma roundtrip_err_scale:
  fixes Fs Fc :: "nat \<Rightarrow> nat \<Rightarrow> 'a::linordered_field"
  assumes "\<And>ci cj. ci < n \<Longrightarrow> cj < n \<Longrightarrow> Fs ci cj = of_int (Fs' ci cj) / d"
    and "\<And>ci cj. ci < n \<Longrightarrow> cj < n \<Longrightarrow> Fc ci cj = of_int (Fc' ci cj) / d"
    and "0 < d"
  shows "roundtrip_err n Fs Fc k (of_int two / d) = of_int (roundtrip_err n Fs' Fc' k two) / d"
proof -
  have 1: "\<bar>pair_sum n Fs e - (if e = k then of_int two / d else 0)\<bar>
           = of_int \<bar>pair_sum n Fs' e - (if e = k then two else 0)\<bar> / d" for e
    using assms(3)
    by (simp add: pair_sum_scale [of n Fs Fs' d, OF assms(1)] diff_divide_distrib [symmetric]
        abs_divide flip: of_int_diff)
  have 2: "\<bar>pair_sum n Fc e\<bar> = of_int \<bar>pair_sum n Fc' e\<bar> / d" for e
    using assms(3) by (simp add: pair_sum_scale [of n Fc Fc' d, OF assms(2)] abs_divide)
  show ?thesis
    unfolding roundtrip_err_def 1 2 of_int_sum sum_divide_distrib of_int_add add_divide_distrib ..
qed

lemma weighted_bound:
  fixes gs gc :: "nat \<Rightarrow> 'a::linordered_field"
  assumes S: "S = ((\<Sum>e<n. gs e * ps e) + (\<Sum>e<n. gc e * pc e)) / 2"
    and gs: "\<And>e. \<bar>gs e\<bar> \<le> m" and gc: "\<And>e. \<bar>gc e\<bar> \<le> m" and k: "k < n"
  shows "\<bar>S - gs k\<bar> \<le> (\<Sum>e<n. \<bar>ps e - (if e = k then 2 else 0)\<bar> + \<bar>pc e\<bar>) / 2 * m"
proof -
  have "(\<Sum>e<n. gs e * (if e = k then 2 else 0)) = 2 * gs k"
    using k by (simp add: sum.delta' if_distrib [of "\<lambda>v. _ * v"] cong: if_cong)
  then have "S - gs k
      = ((\<Sum>e<n. gs e * (ps e - (if e = k then 2 else 0))) + (\<Sum>e<n. gc e * pc e)) / 2"
    unfolding S by (simp add: right_diff_distrib sum_subtractf field_simps)
  also have "\<dots> = (\<Sum>e<n. gs e * (ps e - (if e = k then 2 else 0)) + gc e * pc e) / 2"
    by (simp add: sum.distrib)
  finally have eq: "S - gs k
      = (\<Sum>e<n. gs e * (ps e - (if e = k then 2 else 0)) + gc e * pc e) / 2" .
  have "\<bar>\<Sum>e<n. gs e * (ps e - (if e = k then 2 else 0)) + gc e * pc e\<bar>
        \<le> (\<Sum>e<n. \<bar>gs e * (ps e - (if e = k then 2 else 0)) + gc e * pc e\<bar>)"
    by (rule sum_abs)
  also have "\<dots> \<le> (\<Sum>e<n. (\<bar>ps e - (if e = k then 2 else 0)\<bar> + \<bar>pc e\<bar>) * m)"
  proof (rule sum_mono)
    fix e
    have "\<bar>gs e * (ps e - (if e = k then 2 else 0)) + gc e * pc e\<bar>
          \<le> \<bar>gs e\<bar> * \<bar>ps e - (if e = k then 2 else 0)\<bar> + \<bar>gc e\<bar> * \<bar>pc e\<bar>"
      by (metis abs_mult abs_triangle_ineq)
    also have "\<dots> \<le> m * \<bar>ps e - (if e = k then 2 else 0)\<bar> + m * \<bar>pc e\<bar>"
      by (intro add_mono mult_right_mono gs gc) simp_all
    finally show "\<bar>gs e * (ps e - (if e = k then 2 else 0)) + gc e * pc e\<bar>
          \<le> (\<bar>ps e - (if e = k then 2 else 0)\<bar> + \<bar>pc e\<bar>) * m"
      by (simp add: algebra_simps)
  qed
  finally have "\<bar>\<Sum>e<n. gs e * (ps e - (if e = k then 2 else 0)) + gc e * pc e\<bar>
      \<le> (\<Sum>e<n. \<bar>ps e - (if e = k then 2 else 0)\<bar> + \<bar>pc e\<bar>) * m"
    by (simp add: sum_distrib_right)
  then show ?thesis unfolding eq by (simp add: abs_divide divide_right_mono)
qed

lemma tap_index:
  assumes "odd (ci + cj)" "n = 2 * k + 2"
  shows "int (2 * x + ci) + int cj - int n + 2
         = 2 * (int x + int ((ci + cj) div 2) - int k) + 1"
proof -
  have "ci + cj = 2 * ((ci + cj) div 2) + 1" using assms(1) by presburger
  then have "int ci + int cj = 2 * int ((ci + cj) div 2) + 1" by linarith
  then show ?thesis using assms(2) by simp
qed

lemma tap_parity:
  assumes "n = 2 * k + 2"
  shows "odd (int (2 * x + ci) + int cj - int n + 2) \<longleftrightarrow> odd (ci + cj)"
proof -
  have "int (2 * x + ci) + int cj - int n + 2 = int (ci + cj) + 2 * (int x - int k)"
    using assms by simp
  then show ?thesis by (simp only: even_add even_mult_iff even_numeral even_of_nat) simp
qed

lemma iwavelet_l_at:
  assumes "n = 2 * k + 2"
  shows "iwavelet_l c n N1 A (2 * x + ci) =
     (\<Sum>cj<n. if odd (ci + cj)
         then inv_low c cj * src_at A (N1 div 2) x k ((ci + cj) div 2) else 0)"
  unfolding iwavelet_l_def
proof (rule sum.cong [OF refl])
  fix cj
  show "(if odd (int (2 * x + ci) + int cj - int n + 2)
         then c ! cj * access A (N1 div 2) ((int (2 * x + ci) + int cj - int n + 2) sdiv 2)
         else 0)
        = (if odd (ci + cj)
           then inv_low c cj * src_at A (N1 div 2) x k ((ci + cj) div 2) else 0)"
  proof (cases "odd (ci + cj)")
    case True
    show ?thesis
      unfolding if_P [OF True] tap_index [OF True assms] inv_low_def src_at_def by simp
  next
    case False
    then show ?thesis unfolding tap_parity [OF assms] by simp
  qed
qed

lemma iwavelet_h_at:
  assumes "n = 2 * k + 2"
  shows "iwavelet_h c n N1 A (2 * x + ci) =
     (\<Sum>cj<n. if odd (ci + cj)
         then inv_high c n cj
              * src_at (drop (N1 div 2) A) (N1 div 2) x k ((ci + cj) div 2) else 0)"
  unfolding iwavelet_h_def
proof (rule sum.cong [OF refl])
  fix cj
  show "(if odd (int (2 * x + ci) + int cj - int n + 2)
         then (if even cj then 1 else - 1) * c ! (n - cj - 1)
              * access (drop (N1 div 2) A) (N1 div 2)
                  ((int (2 * x + ci) + int cj - int n + 2) sdiv 2)
         else 0)
        = (if odd (ci + cj)
           then inv_high c n cj
              * src_at (drop (N1 div 2) A) (N1 div 2) x k ((ci + cj) div 2) else 0)"
  proof (cases "odd (ci + cj)")
    case True
    show ?thesis
      unfolding if_P [OF True] tap_index [OF True assms] inv_high_def src_at_def by simp
  next
    case False
    then show ?thesis unfolding tap_parity [OF assms] by simp
  qed
qed

lemma iwavelet_out_nth:
  "t < N1 \<Longrightarrow> iwavelet_out c n N1 A ! t = (iwavelet_l c n N1 A t + iwavelet_h c n N1 A t) / 2"
  by (simp add: iwavelet_out_def)

lemma roundtrip_sample:
  assumes "even N1" "x + k < N1 div 2" "ci < n" "n = 2 * k + 2"
  shows "access (iwavelet_out c n N1 A) N1 (2 * int x + int ci) =
     ((\<Sum>cj<n. if odd (ci + cj)
         then inv_low c cj * src_at A (N1 div 2) x k ((ci + cj) div 2) else 0)
      + (\<Sum>cj<n. if odd (ci + cj)
         then inv_high c n cj
              * src_at (drop (N1 div 2) A) (N1 div 2) x k ((ci + cj) div 2) else 0)) / 2"
proof -
  have lt: "2 * x + ci < N1" using assms by presburger
  have "access (iwavelet_out c n N1 A) N1 (2 * int x + int ci)
        = iwavelet_out c n N1 A ! (2 * x + ci)"
    unfolding access_nat using lt by simp
  also have "\<dots> = (iwavelet_l c n N1 A (2 * x + ci) + iwavelet_h c n N1 A (2 * x + ci)) / 2"
    by (rule iwavelet_out_nth [OF lt])
  finally show ?thesis
    unfolding iwavelet_l_at [OF assms(4)] iwavelet_h_at [OF assms(4)] .
qed

lemma double_sum_split:
  fixes w :: "nat \<Rightarrow> 'a::field"
  shows "(\<Sum>ci<n. w ci *
            (((\<Sum>cj<n. if P ci cj then u cj * ga (q ci cj) else 0)
              + (\<Sum>cj<n. if P ci cj then v cj * gb (q ci cj) else 0)) / 2))
         = ((\<Sum>ci<n. \<Sum>cj<n. if P ci cj then (w ci * u cj) * ga (q ci cj) else 0)
            + (\<Sum>ci<n. \<Sum>cj<n. if P ci cj then (w ci * v cj) * gb (q ci cj) else 0)) / 2"
proof -
  have 1: "w ci * (\<Sum>cj<n. if P ci cj then u cj * ga (q ci cj) else 0)
           = (\<Sum>cj<n. if P ci cj then (w ci * u cj) * ga (q ci cj) else 0)" for ci u ga
    unfolding sum_distrib_left by (intro sum.cong refl) (simp add: mult.assoc)
  have "(\<Sum>ci<n. w ci *
            (((\<Sum>cj<n. if P ci cj then u cj * ga (q ci cj) else 0)
              + (\<Sum>cj<n. if P ci cj then v cj * gb (q ci cj) else 0)) / 2))
        = (\<Sum>ci<n. (w ci * (\<Sum>cj<n. if P ci cj then u cj * ga (q ci cj) else 0)
              + w ci * (\<Sum>cj<n. if P ci cj then v cj * gb (q ci cj) else 0)) / 2)"
    by (intro sum.cong refl) (simp add: distrib_left)
  also have "\<dots> = ((\<Sum>ci<n. w ci * (\<Sum>cj<n. if P ci cj then u cj * ga (q ci cj) else 0))
              + (\<Sum>ci<n. w ci * (\<Sum>cj<n. if P ci cj then v cj * gb (q ci cj) else 0))) / 2"
    unfolding sum_divide_distrib [symmetric] sum.distrib ..
  finally show ?thesis unfolding 1 .
qed

lemma roundtrip_low:
  fixes c :: "'a::field list"
  assumes "even N1" "x + k < N1 div 2" "n = 2 * k + 2"
  shows "wavelet_low c n N1 (iwavelet_out c n N1 A) x =
     ((\<Sum>e<n. src_at A (N1 div 2) x k e
          * pair_sum n (\<lambda>ci cj. fwd_low c n ci * inv_low c cj) e)
      + (\<Sum>e<n. src_at (drop (N1 div 2) A) (N1 div 2) x k e
          * pair_sum n (\<lambda>ci cj. fwd_low c n ci * inv_high c n cj) e)) / 2"
proof -
  let ?ga = "src_at A (N1 div 2) x k"
  let ?gb = "src_at (drop (N1 div 2) A) (N1 div 2) x k"
  have "wavelet_low c n N1 (iwavelet_out c n N1 A) x =
      (\<Sum>ci<n. fwd_low c n ci *
         (((\<Sum>cj<n. if odd (ci + cj) then inv_low c cj * ?ga ((ci + cj) div 2) else 0)
          + (\<Sum>cj<n. if odd (ci + cj) then inv_high c n cj * ?gb ((ci + cj) div 2) else 0)) / 2))"
    unfolding wavelet_low_def fwd_low_def
  proof (rule sum.cong [OF refl])
    fix ci
    assume "ci \<in> {..<n}"
    then have ci: "ci < n" by simp
    show "c ! (n - ci - 1) * access (iwavelet_out c n N1 A) N1 (2 * int x + int ci) =
        c ! (n - ci - 1) *
         (((\<Sum>cj<n. if odd (ci + cj) then inv_low c cj * ?ga ((ci + cj) div 2) else 0)
          + (\<Sum>cj<n. if odd (ci + cj) then inv_high c n cj * ?gb ((ci + cj) div 2) else 0)) / 2)"
      unfolding roundtrip_sample [OF assms(1,2) ci assms(3)] ..
  qed
  also have "\<dots> =
      ((\<Sum>ci<n. \<Sum>cj<n. if odd (ci + cj)
           then (fwd_low c n ci * inv_low c cj) * ?ga ((ci + cj) div 2) else 0)
       + (\<Sum>ci<n. \<Sum>cj<n. if odd (ci + cj)
           then (fwd_low c n ci * inv_high c n cj) * ?gb ((ci + cj) div 2) else 0)) / 2"
    by (rule double_sum_split)
  finally show ?thesis
    unfolding pair_regroup [where n = n and F = "\<lambda>ci cj. fwd_low c n ci * inv_low c cj" and G = ?ga]
      pair_regroup [where n = n and F = "\<lambda>ci cj. fwd_low c n ci * inv_high c n cj" and G = ?gb] .
qed

lemma roundtrip_high:
  fixes c :: "'a::field list"
  assumes "even N1" "x + k < N1 div 2" "n = 2 * k + 2"
  shows "wavelet_high c n N1 (iwavelet_out c n N1 A) x =
     ((\<Sum>e<n. src_at (drop (N1 div 2) A) (N1 div 2) x k e
          * pair_sum n (\<lambda>ci cj. fwd_high c ci * inv_high c n cj) e)
      + (\<Sum>e<n. src_at A (N1 div 2) x k e
          * pair_sum n (\<lambda>ci cj. fwd_high c ci * inv_low c cj) e)) / 2"
proof -
  let ?ga = "src_at A (N1 div 2) x k"
  let ?gb = "src_at (drop (N1 div 2) A) (N1 div 2) x k"
  have "wavelet_high c n N1 (iwavelet_out c n N1 A) x =
      (\<Sum>ci<n. fwd_high c ci *
         (((\<Sum>cj<n. if odd (ci + cj) then inv_high c n cj * ?gb ((ci + cj) div 2) else 0)
          + (\<Sum>cj<n. if odd (ci + cj) then inv_low c cj * ?ga ((ci + cj) div 2) else 0)) / 2))"
    unfolding wavelet_high_def fwd_high_def
  proof (rule sum.cong [OF refl])
    fix ci
    assume "ci \<in> {..<n}"
    then have ci: "ci < n" by simp
    show "(if even ci then - 1 else 1) * c ! ci
            * access (iwavelet_out c n N1 A) N1 (2 * int x + int ci) =
        (if even ci then - 1 else 1) * c ! ci *
         (((\<Sum>cj<n. if odd (ci + cj) then inv_high c n cj * ?gb ((ci + cj) div 2) else 0)
          + (\<Sum>cj<n. if odd (ci + cj) then inv_low c cj * ?ga ((ci + cj) div 2) else 0)) / 2)"
      unfolding roundtrip_sample [OF assms(1,2) ci assms(3)] by (simp only: add.commute)
  qed
  also have "\<dots> =
      ((\<Sum>ci<n. \<Sum>cj<n. if odd (ci + cj)
           then (fwd_high c ci * inv_high c n cj) * ?gb ((ci + cj) div 2) else 0)
       + (\<Sum>ci<n. \<Sum>cj<n. if odd (ci + cj)
           then (fwd_high c ci * inv_low c cj) * ?ga ((ci + cj) div 2) else 0)) / 2"
    by (rule double_sum_split)
  finally show ?thesis
    unfolding pair_regroup [where n = n and F = "\<lambda>ci cj. fwd_high c ci * inv_high c n cj" and G = ?gb]
      pair_regroup [where n = n and F = "\<lambda>ci cj. fwd_high c ci * inv_low c cj" and G = ?ga] .
qed

lemma src_at_centre:
  assumes "x < M"
  shows "src_at h M x k k = h ! x"
proof -
  have "(2 * (int x + int k - int k) + 1) sdiv 2 = int x"
    by (simp add: signed_divide_int_def sgn_if)
  then show ?thesis using assms by (simp add: src_at_def access_def)
qed

lemma src_at_bound:
  fixes h :: "'a::linordered_idom list"
  assumes "\<And>j. j < M \<Longrightarrow> \<bar>h ! j\<bar> \<le> m" "0 \<le> m"
  shows "\<bar>src_at h M x k e\<bar> \<le> m"
proof -
  have "\<bar>access h M q\<bar> \<le> m" for q
  proof (cases "0 \<le> q \<and> q < int M")
    case True
    then have "nat q < M" by linarith
    then show ?thesis using True assms(1) by (simp add: access_def)
  next
    case False
    then show ?thesis using assms(2) by (auto simp: access_def)
  qed
  then show ?thesis by (simp add: src_at_def)
qed

lemma roundtrip_row_bound:
  fixes A :: "'a::linordered_field list"
  assumes N1: "even N1" and len: "length A = N1" and x: "x + k < N1 div 2"
    and n: "n = 2 * k + 2" and m: "\<And>j. j < N1 \<Longrightarrow> \<bar>A ! j\<bar> \<le> m"
  shows "\<bar>wavelet_out c n N1 (iwavelet_out c n N1 A) ! x - A ! x\<bar>
           \<le> low_err c n k 2 / 2 * m"
    and "\<bar>wavelet_out c n N1 (iwavelet_out c n N1 A) ! (N1 div 2 + x) - A ! (N1 div 2 + x)\<bar>
           \<le> high_err c n k 2 / 2 * m"
proof -
  let ?M = "N1 div 2"
  have xM: "x < ?M" using x by simp
  have kn: "k < n" using n by simp
  have "0 < N1" using x by linarith
  then have "\<bar>A ! 0\<bar> \<le> m" by (rule m)
  then have m0: "0 \<le> m" by linarith
  have ga: "\<bar>src_at A ?M x k e\<bar> \<le> m" for e
  proof (rule src_at_bound [OF _ m0])
    fix j assume "j < ?M"
    then have "j < N1" by linarith
    then show "\<bar>A ! j\<bar> \<le> m" by (rule m)
  qed
  have gb: "\<bar>src_at (drop ?M A) ?M x k e\<bar> \<le> m" for e
  proof (rule src_at_bound [OF _ m0])
    fix j assume j: "j < ?M"
    then have "?M + j < N1" using N1 by presburger
    then have "\<bar>A ! (?M + j)\<bar> \<le> m" by (rule m)
    then show "\<bar>drop ?M A ! j\<bar> \<le> m"
      using \<open>?M + j < N1\<close> len by simp
  qed
  have ca: "src_at A ?M x k k = A ! x" by (rule src_at_centre [OF xM])
  have "src_at (drop ?M A) ?M x k k = drop ?M A ! x" by (rule src_at_centre [OF xM])
  also have "\<dots> = A ! (?M + x)"
  proof -
    have "?M + x < N1" using xM N1 by presburger
    then show ?thesis using len by simp
  qed
  finally have cb: "src_at (drop ?M A) ?M x k k = A ! (?M + x)" .
  have "\<bar>wavelet_low c n N1 (iwavelet_out c n N1 A) x - src_at A ?M x k k\<bar>
          \<le> low_err c n k 2 / 2 * m"
    unfolding low_err_def roundtrip_err_def
    by (rule weighted_bound [OF roundtrip_low [OF N1 x n] ga gb kn])
  then show "\<bar>wavelet_out c n N1 (iwavelet_out c n N1 A) ! x - A ! x\<bar>
           \<le> low_err c n k 2 / 2 * m"
    unfolding ca by (simp add: wavelet_out_nth_low [OF xM])
  have "\<bar>wavelet_high c n N1 (iwavelet_out c n N1 A) x - src_at (drop ?M A) ?M x k k\<bar>
          \<le> high_err c n k 2 / 2 * m"
    unfolding high_err_def roundtrip_err_def
    by (rule weighted_bound [OF roundtrip_high [OF N1 x n] gb ga kn])
  then show "\<bar>wavelet_out c n N1 (iwavelet_out c n N1 A) ! (N1 div 2 + x) - A ! (N1 div 2 + x)\<bar>
           \<le> high_err c n k 2 / 2 * m"
    unfolding cb by (simp add: wavelet_out_nth_high [OF xM])
qed

lemma scaled_errs:
  fixes c :: "'a::linordered_field list"
  assumes c: "c = map (\<lambda>z. of_int z / 10 ^ p) Z" and len: "length Z = n"
  shows "low_err c n k 2 = of_int (low_err Z n k (2 * 10 ^ (2 * p))) / 10 ^ (2 * p)"
    and "high_err c n k 2 = of_int (high_err Z n k (2 * 10 ^ (2 * p))) / 10 ^ (2 * p)"
proof -
  have nth: "c ! i = of_int (Z ! i) / 10 ^ p" if "i < n" for i
    using that len by (simp add: c)
  have d: "(0 :: 'a) < 10 ^ (2 * p)" by simp
  have two: "(2 :: 'a) = of_int (2 * 10 ^ (2 * p)) / 10 ^ (2 * p)" by simp
  have pp: "(10 :: 'a) ^ (2 * p) = 10 ^ p * 10 ^ p"
    by (simp add: mult_2 power_add)
  have fl: "fwd_low c n ci = of_int (fwd_low Z n ci) / 10 ^ p" if "ci < n" for ci
    using that by (simp add: fwd_low_def nth)
  have fh: "fwd_high c ci = of_int (fwd_high Z ci) / 10 ^ p" if "ci < n" for ci
    using that by (simp add: fwd_high_def nth)
  have il: "inv_low c cj = of_int (inv_low Z cj) / 10 ^ p" if "cj < n" for cj
    using that by (simp add: inv_low_def nth)
  have ih: "inv_high c n cj = of_int (inv_high Z n cj) / 10 ^ p" if "cj < n" for cj
    using that by (simp add: inv_high_def nth)
  have prod: "(of_int a / 10 ^ p) * (of_int b / 10 ^ p) = (of_int (a * b) :: 'a) / 10 ^ (2 * p)"
    for a b
    unfolding pp by simp
  show "low_err c n k 2 = of_int (low_err Z n k (2 * 10 ^ (2 * p))) / 10 ^ (2 * p)"
    unfolding low_err_def
    by (subst two, rule roundtrip_err_scale) (simp_all only: fl il ih prod d)
  show "high_err c n k 2 = of_int (high_err Z n k (2 * 10 ^ (2 * p))) / 10 ^ (2 * p)"
    unfolding high_err_def
    by (subst two, rule roundtrip_err_scale) (simp_all only: fh il ih prod d)
qed

lemma scaled_tol:
  fixes c :: "'a::linordered_field list"
  assumes c: "c = map (\<lambda>z. of_int z / 10 ^ p) Z" and len: "length Z = n"
    and "low_err Z n k (2 * 10 ^ (2 * p)) * 10 ^ 6 \<le> 4 * 10 ^ (2 * p)"
    and "high_err Z n k (2 * 10 ^ (2 * p)) * 10 ^ 6 \<le> 4 * 10 ^ (2 * p)"
  shows "low_err c n k 2 / 2 \<le> 2 / 10 ^ 6 \<and> high_err c n k 2 / 2 \<le> 2 / 10 ^ 6"
proof -
  have *: "of_int e / 10 ^ (2 * p) / 2 \<le> (2 :: 'a) / 10 ^ 6"
    if "e * 10 ^ 6 \<le> 4 * 10 ^ (2 * p)" for e :: int
  proof -
    have "(of_int (e * 10 ^ 6) :: 'a) \<le> of_int (4 * 10 ^ (2 * p))"
      using that by (simp only: of_int_le_iff)
    then have "(of_int e :: 'a) * 10 ^ 6 \<le> 4 * 10 ^ (2 * p)" by simp
    then show ?thesis by (simp add: field_simps)
  qed
  show ?thesis
    unfolding scaled_errs [OF c len] using assms(3,4) by (simp only: * simp_thms)
qed

lemma D2_scaled_eq: "(D2 :: 'a::linordered_field list) = map (\<lambda>z. of_int z / 10 ^ 0) D2_scaled"
  by (simp add: D2_def D2_scaled_def)

lemma D2_int_err:
  "low_err D2_scaled 2 0 (2 * 10 ^ (2 * 0)) = 0"
  "high_err D2_scaled 2 0 (2 * 10 ^ (2 * 0)) = 0"
  by code_simp+

lemma D4_scaled_eq: "(D4 :: 'a::linordered_field list) = map (\<lambda>z. of_int z / 10 ^ 7) D4_scaled"
  by (simp add: D4_def D4_scaled_def)

lemma D4_int_err:
  "low_err D4_scaled 4 1 (2 * 10 ^ (2 * 7)) * 10 ^ 6 \<le> 4 * 10 ^ (2 * 7)"
  "high_err D4_scaled 4 1 (2 * 10 ^ (2 * 7)) * 10 ^ 6 \<le> 4 * 10 ^ (2 * 7)"
  by code_simp+

lemma D6_scaled_eq: "(D6 :: 'a::linordered_field list) = map (\<lambda>z. of_int z / 10 ^ 8) D6_scaled"
  by (simp add: D6_def D6_scaled_def)

lemma D6_int_err:
  "low_err D6_scaled 6 2 (2 * 10 ^ (2 * 8)) * 10 ^ 6 \<le> 4 * 10 ^ (2 * 8)"
  "high_err D6_scaled 6 2 (2 * 10 ^ (2 * 8)) * 10 ^ 6 \<le> 4 * 10 ^ (2 * 8)"
  by code_simp+

lemma D8_scaled_eq: "(D8 :: 'a::linordered_field list) = map (\<lambda>z. of_int z / 10 ^ 8) D8_scaled"
  by (simp add: D8_def D8_scaled_def)

lemma D8_int_err:
  "low_err D8_scaled 8 3 (2 * 10 ^ (2 * 8)) * 10 ^ 6 \<le> 4 * 10 ^ (2 * 8)"
  "high_err D8_scaled 8 3 (2 * 10 ^ (2 * 8)) * 10 ^ 6 \<le> 4 * 10 ^ (2 * 8)"
  by code_simp+

lemma D10_scaled_eq: "(D10 :: 'a::linordered_field list) = map (\<lambda>z. of_int z / 10 ^ 8) D10_scaled"
  by (simp add: D10_def D10_scaled_def)

lemma D10_int_err:
  "low_err D10_scaled 10 4 (2 * 10 ^ (2 * 8)) * 10 ^ 6 \<le> 4 * 10 ^ (2 * 8)"
  "high_err D10_scaled 10 4 (2 * 10 ^ (2 * 8)) * 10 ^ 6 \<le> 4 * 10 ^ (2 * 8)"
  by code_simp+

lemma D12_scaled_eq: "(D12 :: 'a::linordered_field list) = map (\<lambda>z. of_int z / 10 ^ 12) D12_scaled"
  by (simp add: D12_def D12_scaled_def)

lemma D12_int_err:
  "low_err D12_scaled 12 5 (2 * 10 ^ (2 * 12)) * 10 ^ 6 \<le> 4 * 10 ^ (2 * 12)"
  "high_err D12_scaled 12 5 (2 * 10 ^ (2 * 12)) * 10 ^ 6 \<le> 4 * 10 ^ (2 * 12)"
  by code_simp+

lemma D14_scaled_eq: "(D14 :: 'a::linordered_field list) = map (\<lambda>z. of_int z / 10 ^ 12) D14_scaled"
  by (simp add: D14_def D14_scaled_def)

lemma D14_int_err:
  "low_err D14_scaled 14 6 (2 * 10 ^ (2 * 12)) * 10 ^ 6 \<le> 4 * 10 ^ (2 * 12)"
  "high_err D14_scaled 14 6 (2 * 10 ^ (2 * 12)) * 10 ^ 6 \<le> 4 * 10 ^ (2 * 12)"
  by code_simp+

lemma D16_scaled_eq: "(D16 :: 'a::linordered_field list) = map (\<lambda>z. of_int z / 10 ^ 12) D16_scaled"
  by (simp add: D16_def D16_scaled_def)

lemma D16_int_err:
  "low_err D16_scaled 16 7 (2 * 10 ^ (2 * 12)) * 10 ^ 6 \<le> 4 * 10 ^ (2 * 12)"
  "high_err D16_scaled 16 7 (2 * 10 ^ (2 * 12)) * 10 ^ 6 \<le> 4 * 10 ^ (2 * 12)"
  by code_simp+

lemma D18_scaled_eq: "(D18 :: 'a::linordered_field list) = map (\<lambda>z. of_int z / 10 ^ 12) D18_scaled"
  by (simp add: D18_def D18_scaled_def)

lemma D18_int_err:
  "low_err D18_scaled 18 8 (2 * 10 ^ (2 * 12)) * 10 ^ 6 \<le> 4 * 10 ^ (2 * 12)"
  "high_err D18_scaled 18 8 (2 * 10 ^ (2 * 12)) * 10 ^ 6 \<le> 4 * 10 ^ (2 * 12)"
  by code_simp+

lemma D20_scaled_eq: "(D20 :: 'a::linordered_field list) = map (\<lambda>z. of_int z / 10 ^ 12) D20_scaled"
  by (simp add: D20_def D20_scaled_def)

lemma D20_int_err:
  "low_err D20_scaled 20 9 (2 * 10 ^ (2 * 12)) * 10 ^ 6 \<le> 4 * 10 ^ (2 * 12)"
  "high_err D20_scaled 20 9 (2 * 10 ^ (2 * 12)) * 10 ^ 6 \<le> 4 * 10 ^ (2 * 12)"
  by code_simp+

lemma D2_tol:
  "low_err (D2 :: 'a::linordered_field list) (2 * 0 + 2) 0 2 / 2 \<le> daub_tol 0 \<and>
   high_err (D2 :: 'a list) (2 * 0 + 2) 0 2 / 2 \<le> daub_tol 0"
proof -
  have n: "(2 * 0 + 2 :: nat) = 2" by simp
  have len: "length D2_scaled = 2" by (simp add: D2_scaled_def)
  show ?thesis
    unfolding n scaled_errs [OF D2_scaled_eq len] D2_int_err by (simp add: daub_tol_def)
qed

lemma D4_tol:
  "low_err (D4 :: 'a::linordered_field list) (2 * 1 + 2) 1 2 / 2 \<le> daub_tol 1 \<and>
   high_err (D4 :: 'a list) (2 * 1 + 2) 1 2 / 2 \<le> daub_tol 1"
proof -
  have n: "(2 * 1 + 2 :: nat) = 4" by simp
  have len: "length D4_scaled = 4" by (simp add: D4_scaled_def)
  show ?thesis
    unfolding n using scaled_tol [OF D4_scaled_eq len D4_int_err, where ?'a = 'a]
    by (simp add: daub_tol_def)
qed

lemma D6_tol:
  "low_err (D6 :: 'a::linordered_field list) (2 * 2 + 2) 2 2 / 2 \<le> daub_tol 2 \<and>
   high_err (D6 :: 'a list) (2 * 2 + 2) 2 2 / 2 \<le> daub_tol 2"
proof -
  have n: "(2 * 2 + 2 :: nat) = 6" by simp
  have len: "length D6_scaled = 6" by (simp add: D6_scaled_def)
  show ?thesis
    unfolding n using scaled_tol [OF D6_scaled_eq len D6_int_err, where ?'a = 'a]
    by (simp add: daub_tol_def)
qed

lemma D8_tol:
  "low_err (D8 :: 'a::linordered_field list) (2 * 3 + 2) 3 2 / 2 \<le> daub_tol 3 \<and>
   high_err (D8 :: 'a list) (2 * 3 + 2) 3 2 / 2 \<le> daub_tol 3"
proof -
  have n: "(2 * 3 + 2 :: nat) = 8" by simp
  have len: "length D8_scaled = 8" by (simp add: D8_scaled_def)
  show ?thesis
    unfolding n using scaled_tol [OF D8_scaled_eq len D8_int_err, where ?'a = 'a]
    by (simp add: daub_tol_def)
qed

lemma D10_tol:
  "low_err (D10 :: 'a::linordered_field list) (2 * 4 + 2) 4 2 / 2 \<le> daub_tol 4 \<and>
   high_err (D10 :: 'a list) (2 * 4 + 2) 4 2 / 2 \<le> daub_tol 4"
proof -
  have n: "(2 * 4 + 2 :: nat) = 10" by simp
  have len: "length D10_scaled = 10" by (simp add: D10_scaled_def)
  show ?thesis
    unfolding n using scaled_tol [OF D10_scaled_eq len D10_int_err, where ?'a = 'a]
    by (simp add: daub_tol_def)
qed

lemma D12_tol:
  "low_err (D12 :: 'a::linordered_field list) (2 * 5 + 2) 5 2 / 2 \<le> daub_tol 5 \<and>
   high_err (D12 :: 'a list) (2 * 5 + 2) 5 2 / 2 \<le> daub_tol 5"
proof -
  have n: "(2 * 5 + 2 :: nat) = 12" by simp
  have len: "length D12_scaled = 12" by (simp add: D12_scaled_def)
  show ?thesis
    unfolding n using scaled_tol [OF D12_scaled_eq len D12_int_err, where ?'a = 'a]
    by (simp add: daub_tol_def)
qed

lemma D14_tol:
  "low_err (D14 :: 'a::linordered_field list) (2 * 6 + 2) 6 2 / 2 \<le> daub_tol 6 \<and>
   high_err (D14 :: 'a list) (2 * 6 + 2) 6 2 / 2 \<le> daub_tol 6"
proof -
  have n: "(2 * 6 + 2 :: nat) = 14" by simp
  have len: "length D14_scaled = 14" by (simp add: D14_scaled_def)
  show ?thesis
    unfolding n using scaled_tol [OF D14_scaled_eq len D14_int_err, where ?'a = 'a]
    by (simp add: daub_tol_def)
qed

lemma D16_tol:
  "low_err (D16 :: 'a::linordered_field list) (2 * 7 + 2) 7 2 / 2 \<le> daub_tol 7 \<and>
   high_err (D16 :: 'a list) (2 * 7 + 2) 7 2 / 2 \<le> daub_tol 7"
proof -
  have n: "(2 * 7 + 2 :: nat) = 16" by simp
  have len: "length D16_scaled = 16" by (simp add: D16_scaled_def)
  show ?thesis
    unfolding n using scaled_tol [OF D16_scaled_eq len D16_int_err, where ?'a = 'a]
    by (simp add: daub_tol_def)
qed

lemma D18_tol:
  "low_err (D18 :: 'a::linordered_field list) (2 * 8 + 2) 8 2 / 2 \<le> daub_tol 8 \<and>
   high_err (D18 :: 'a list) (2 * 8 + 2) 8 2 / 2 \<le> daub_tol 8"
proof -
  have n: "(2 * 8 + 2 :: nat) = 18" by simp
  have len: "length D18_scaled = 18" by (simp add: D18_scaled_def)
  show ?thesis
    unfolding n using scaled_tol [OF D18_scaled_eq len D18_int_err, where ?'a = 'a]
    by (simp add: daub_tol_def)
qed

lemma D20_tol:
  "low_err (D20 :: 'a::linordered_field list) (2 * 9 + 2) 9 2 / 2 \<le> daub_tol 9 \<and>
   high_err (D20 :: 'a list) (2 * 9 + 2) 9 2 / 2 \<le> daub_tol 9"
proof -
  have n: "(2 * 9 + 2 :: nat) = 20" by simp
  have len: "length D20_scaled = 20" by (simp add: D20_scaled_def)
  show ?thesis
    unfolding n using scaled_tol [OF D20_scaled_eq len D20_int_err, where ?'a = 'a]
    by (simp add: daub_tol_def)
qed

lemma dcoeffs_cases:
  assumes "dcoeffs (int k) = Some c"
  shows "(k = 0 \<and> c = D2) \<or> (k = 1 \<and> c = D4) \<or> (k = 2 \<and> c = D6) \<or> (k = 3 \<and> c = D8)
       \<or> (k = 4 \<and> c = D10) \<or> (k = 5 \<and> c = D12) \<or> (k = 6 \<and> c = D14) \<or> (k = 7 \<and> c = D16)
       \<or> (k = 8 \<and> c = D18) \<or> (k = 9 \<and> c = D20)"
  using assms by (auto simp: dcoeffs_def split: if_splits)

lemma daub_table:
  fixes c :: "'a::linordered_field list"
  assumes "dcoeffs (int k) = Some c"
  shows "low_err c (2 * k + 2) k 2 / 2 \<le> daub_tol k \<and>
         high_err c (2 * k + 2) k 2 / 2 \<le> daub_tol k"
  using dcoeffs_cases [OF assms]
proof (elim disjE conjE)
  assume kc: "k = 0" "c = D2"
  show ?thesis unfolding kc by (rule D2_tol)
next
  assume kc: "k = 1" "c = D4"
  show ?thesis unfolding kc by (rule D4_tol)
next
  assume kc: "k = 2" "c = D6"
  show ?thesis unfolding kc by (rule D6_tol)
next
  assume kc: "k = 3" "c = D8"
  show ?thesis unfolding kc by (rule D8_tol)
next
  assume kc: "k = 4" "c = D10"
  show ?thesis unfolding kc by (rule D10_tol)
next
  assume kc: "k = 5" "c = D12"
  show ?thesis unfolding kc by (rule D12_tol)
next
  assume kc: "k = 6" "c = D14"
  show ?thesis unfolding kc by (rule D14_tol)
next
  assume kc: "k = 7" "c = D16"
  show ?thesis unfolding kc by (rule D16_tol)
next
  assume kc: "k = 8" "c = D18"
  show ?thesis unfolding kc by (rule D18_tol)
next
  assume kc: "k = 9" "c = D20"
  show ?thesis unfolding kc by (rule D20_tol)
qed

text \<open>
  C3, amended.  For every order code \<open>k\<close> in \<open>0..9\<close> and every 2-D array \<open>A\<close> with
  even row length, the inverse Daubechies transform followed by the forward one
  restores every element of the low half and of the high half at the positions \<open>x\<close>
  with \<open>x + k < N1 div 2\<close> (all but the last \<open>k\<close> of each half), within
  \<open>daub_tol k\<close> times a bound \<open>m\<close> on the row's absolute values: exactly for
  \<open>k = 0\<close>, within \<open>2 * 10\<^sup>-\<^sup>6 * m\<close> otherwise (the tables are decimal roundings).
  Arithmetic is exact; floating-point rounding is not modelled.
\<close>

theorem daubechies_roundtrip_interior:
  fixes A :: "'a::linordered_field list list"
  assumes "dcoeffs (int k) = Some c" "wf_array N0 N1 A" "even N1" "y < N0"
    and "x + k < N1 div 2" "list_all (\<lambda>v. \<bar>v\<bar> \<le> m) (A ! y)"
  shows "\<bar>wavelet c (2 * (k + 1)) N0 N1 (iwavelet c (2 * (k + 1)) N0 N1 A) ! y ! x
           - A ! y ! x\<bar> \<le> daub_tol k * m \<and>
         \<bar>wavelet c (2 * (k + 1)) N0 N1 (iwavelet c (2 * (k + 1)) N0 N1 A) ! y ! (N1 div 2 + x)
           - A ! y ! (N1 div 2 + x)\<bar> \<le> daub_tol k * m"
proof -
  let ?n = "2 * (k + 1)"
  have n: "?n = 2 * k + 2" by simp
  have y: "y < length A" and len: "length (A ! y) = N1"
    using assms(2,4) by (simp_all add: wf_array_def)
  have wf': "wf_array N0 N1 (map (iwavelet_out c ?n N1) A)"
    using assms(2) by (rule wf_array_map) simp
  have m: "\<bar>A ! y ! j\<bar> \<le> m" if "j < N1" for j
    using assms(6) that len by (simp add: list_all_length)
  have "0 < N1" using assms(5) by linarith
  then have m0: "0 \<le> m" using m [of 0] by linarith
  have "wavelet c ?n N0 N1 (iwavelet c ?n N0 N1 A)
        = map (wavelet_out c ?n N1) (map (iwavelet_out c ?n N1) A)"
    unfolding iwavelet_eq [OF assms(2)] by (rule wavelet_eq [OF wf'])
  then have eq: "wavelet c ?n N0 N1 (iwavelet c ?n N0 N1 A) ! y
            = wavelet_out c ?n N1 (iwavelet_out c ?n N1 (A ! y))"
    using y by (simp only: nth_map length_map)
  note b = roundtrip_row_bound [OF assms(3) len assms(5) n m, of c]
  note t = daub_table [OF assms(1), unfolded n [symmetric]]
  have "low_err c ?n k 2 / 2 * m \<le> daub_tol k * m"
    using t m0 by (intro mult_right_mono) simp_all
  moreover have "high_err c ?n k 2 / 2 * m \<le> daub_tol k * m"
    using t m0 by (intro mult_right_mono) simp_all
  ultimately show ?thesis
    unfolding eq using b by (meson order_trans)
qed

lemma upt_4: "[0..<4] = [0, 1, 2, 3]"
  by (simp add: upt_rec)

lemma iwavelet_D4_unit:
  "iwavelet_out (D4 :: rat list) 4 4 [0, 1, 0, 0]
     = [0, 0, - (1830127 / 20000000), 3169873 / 20000000]"
  by (simp add: iwavelet_out_def iwavelet_l_def iwavelet_h_def upt_4 sum_lessThan_4
      access_def signed_divide_int_def D4_def)

text \<open>
  C3, as stated, fails near the right row boundary: \<^verbatim>\<open>wavelet\<close> cuts the taps that
  fall at or after \<open>N1\<close>, so the last \<open>k\<close> positions of each half are not restored.
  With code 1 (\<open>D4\<close>) and the row \<open>[0, 1, 0, 0]\<close>, element 1 comes back as
  \<open>0.067\<close> instead of \<open>1\<close>.
\<close>

theorem daubechies_boundary_counterexample:
  "dcoeffs 1 = Some (D4 :: rat list) \<and>
   \<bar>wavelet D4 4 1 4 (iwavelet D4 4 1 4 [[0, 1, 0, 0 :: rat]]) ! 0 ! 1
      - [[0, 1, 0, 0]] ! 0 ! 1\<bar> > 9 / 10"
proof -
  have wf: "wf_array 1 4 [[0, 1, 0, 0 :: rat]]" by (simp add: wf_array_def)
  have wf': "wf_array 1 4 (map (iwavelet_out (D4 :: rat list) 4 4) [[0, 1, 0, 0]])"
    using wf by (rule wf_array_map) simp
  have x: "(1 :: nat) < 4 div 2" by simp
  have "wavelet D4 4 1 4 (iwavelet D4 4 1 4 [[0, 1, 0, 0 :: rat]]) ! 0 ! 1
        = wavelet_low D4 4 4 (iwavelet_out D4 4 4 [0, 1, 0, 0]) 1"
    unfolding iwavelet_eq [OF wf] wavelet_eq [OF wf']
    using wavelet_out_nth_low [OF x, of "D4 :: rat list" 4 "iwavelet_out D4 4 4 [0, 1, 0, 0]"]
    by simp
  also have "\<dots> = 6698729836129 / 10 ^ 14"
    unfolding iwavelet_D4_unit
    by (simp add: wavelet_low_def sum_lessThan_4 access_def D4_def)
  finally show ?thesis by (simp add: dcoeffs_def)
qed

theorem daubechies_roundtrip_interior_witness:
  "dcoeffs (int 1) = Some (D4 :: rat list) \<and>
   wf_array 1 8 [[1, 2, 3, 4, 5, 6, 7, 8 :: rat]] \<and> even (8 :: nat) \<and> (0 :: nat) < 1 \<and>
   (2 :: nat) + 1 < 8 div 2 \<and>
   list_all (\<lambda>v. \<bar>v\<bar> \<le> 8) ([[1, 2, 3, 4, 5, 6, 7, 8 :: rat]] ! 0) \<and>
   \<bar>wavelet D4 (2 * (1 + 1)) 1 8
       (iwavelet D4 (2 * (1 + 1)) 1 8 [[1, 2, 3, 4, 5, 6, 7, 8 :: rat]]) ! 0 ! 2
      - [[1, 2, 3, 4, 5, 6, 7, 8]] ! 0 ! 2\<bar> \<le> daub_tol 1 * 8 \<and>
   \<bar>wavelet D4 (2 * (1 + 1)) 1 8
       (iwavelet D4 (2 * (1 + 1)) 1 8 [[1, 2, 3, 4, 5, 6, 7, 8 :: rat]]) ! 0 ! (8 div 2 + 2)
      - [[1, 2, 3, 4, 5, 6, 7, 8]] ! 0 ! (8 div 2 + 2)\<bar> \<le> daub_tol 1 * 8"
proof -
  have h1: "dcoeffs (int 1) = Some (D4 :: rat list)" by (simp add: dcoeffs_def)
  have h2: "wf_array 1 8 [[1, 2, 3, 4, 5, 6, 7, 8 :: rat]]" by (simp add: wf_array_def)
  have h3: "even (8 :: nat)" by simp
  have h4: "(0 :: nat) < 1" by simp
  have h5: "(2 :: nat) + 1 < 8 div 2" by simp
  have h6: "list_all (\<lambda>v. \<bar>v\<bar> \<le> 8) ([[1, 2, 3, 4, 5, 6, 7, 8 :: rat]] ! 0)" by simp
  from daubechies_roundtrip_interior [OF h1 h2 h3 h4 h5 h6] h1 h2 h3 h4 h5 h6
  show ?thesis by blast
qed

end
